theory Spec2Isabelle
  imports Main "HOL-Library.Sublist"
begin

section \<open>Bytes, Python values and errors\<close>

text \<open>
  The program is \<^verbatim>\<open>minecraft-pi-fast-query.py\<close>. A Python \<^verbatim>\<open>bytes\<close> object is a list of
  characters; the line terminator \<^verbatim>\<open>b"\n"\<close> is the character 0x0A.
\<close>

type_synonym bytes = string

abbreviation newline :: char where
  "newline \<equiv> CHR 0x0A"

text \<open>
  The two comparisons \<^verbatim>\<open>bytes_written == 0\<close> and \<^verbatim>\<open>bytes_read == 0\<close> of the worker apply
  Python's \<^verbatim>\<open>==\<close> to the result of \<^verbatim>\<open>socket.send\<close> (an int) and to the result of
  \<^verbatim>\<open>socket.recv\<close> (a bytes object). Python's \<^verbatim>\<open>==\<close> between an int and a bytes object
  is False, whatever their contents.
\<close>

datatype pyval = PyInt int | PyBytes bytes

fun py_eq :: "pyval \<Rightarrow> pyval \<Rightarrow> bool" where
  "py_eq (PyInt a) (PyInt b) = (a = b)"
| "py_eq (PyBytes a) (PyBytes b) = (a = b)"
| "py_eq (PyInt a) (PyBytes b) = False"
| "py_eq (PyBytes a) (PyInt b) = False"

text \<open>
  The exceptions that leave the code: the two \<^verbatim>\<open>RuntimeError\<close>s of the worker,
  \<^verbatim>\<open>IndexError\<close> of \<^verbatim>\<open>deque.popleft\<close> on an empty deque, \<^verbatim>\<open>socket.error\<close> of a socket
  call, the exception of the caller's \<^verbatim>\<open>parse_fn\<close> (\<^verbatim>\<open>ValueError\<close> for \<^verbatim>\<open>int\<close>) and
  \<^verbatim>\<open>KeyError\<close> of a dictionary lookup.
\<close>

datatype error =
  RuntimeError string
  | IndexError
  | SocketError
  | ValueError
  | KeyError

section \<open>The socket as the worker sees it\<close>

text \<open>
  One pass of the worker's loop calls \<^verbatim>\<open>select.select\<close> once and then at most one
  \<^verbatim>\<open>send\<close> and one \<^verbatim>\<open>recv\<close>. What these calls return is decided outside the program,
  so it is an input of the model: an \<open>event\<close> holds, for one pass, whether select
  reports the socket readable and writable, how many bytes a send would accept (or that
  it raises \<^verbatim>\<open>socket.error\<close>) and which bytes a recv would return (or that it raises).
  A socket is the list of its future events.
\<close>

datatype send_result = Accepts nat | SendRaises

datatype recv_result = Delivers bytes | RecvRaises

record event =
  readable :: bool
  writable :: bool
  on_send :: send_result
  on_recv :: recv_result

section \<open>The worker\<close>

text \<open>
  The state a worker reads and writes: the shared iterator \<^verbatim>\<open>request_iter\<close> (its
  remaining items), the shared \<^verbatim>\<open>answer_queue\<close>, the four locals of \<^verbatim>\<open>worker_fn\<close>, and
  the traffic of its socket so far: \<open>wire_out\<close> are the bytes that \<^verbatim>\<open>send\<close> has
  accepted, \<open>wire_in\<close> the bytes that \<^verbatim>\<open>recv\<close> has returned.
\<close>

record ('r, 'a) worker =
  request_iter :: "'r list"
  answer_queue :: "('r \<times> 'a) list"
  more_requests :: bool
  request_buffer :: bytes
  response_buffer :: bytes
  pending_request_queue :: "'r list"
  wire_out :: bytes
  wire_in :: bytes

text \<open>
  A step of the worker either goes on with a new state or raises; the state at the raise
  is kept, since what was written to the socket and to the answer queue before the raise
  stays written.
\<close>

type_synonym ('r, 'a) step = "(error \<times> ('r, 'a) worker) + ('r, 'a) worker"

text \<open>
  \<^verbatim>\<open>s.split(sep)\<close> for a separator of one character: the segments between the
  separators; the result is never empty, and its last segment is what follows the last
  separator.
\<close>

fun py_split :: "char \<Rightarrow> string \<Rightarrow> string list" where
  "py_split sep [] = [[]]"
| "py_split sep (c # cs) =
     (if c = sep then [] # py_split sep cs
      else (case py_split sep cs of
              [] \<Rightarrow> [[c]]
            | seg # segs \<Rightarrow> (c # seg) # segs))"

text \<open>
  The body of the inner loop, under the lock: \<^verbatim>\<open>next(request_iter)\<close> either raises
  \<^verbatim>\<open>StopIteration\<close>, and \<^verbatim>\<open>more_requests\<close> becomes False, or gives \<^verbatim>\<open>pos\<close>, whose
  command \<^verbatim>\<open>(fmt % pos).encode(socket_encoding) + b"\n"\<close> is appended to the request
  buffer while \<^verbatim>\<open>pos\<close> is appended to the pending queue. The parameter \<open>fmt\<close> is
  the formatting and encoding of one request.
\<close>

definition draw :: "('r \<Rightarrow> bytes) \<Rightarrow> ('r, 'a) worker \<Rightarrow> ('r, 'a) worker" where
  "draw fmt w =
     (case request_iter w of
        [] \<Rightarrow> w\<lparr>more_requests := False\<rparr>
      | pos # rest \<Rightarrow>
          w\<lparr>request_iter := rest,
            request_buffer := request_buffer w @ fmt pos @ [newline],
            pending_request_queue := pending_request_queue w @ [pos]\<rparr>)"

text \<open>
  The inner loop \<^verbatim>\<open>while more_requests and len(request_buffer) < 4096\<close>.
\<close>

function grab :: "('r \<Rightarrow> bytes) \<Rightarrow> ('r, 'a) worker \<Rightarrow> ('r, 'a) worker" where
  "grab fmt w =
     (if more_requests w \<and> length (request_buffer w) < 4096
      then grab fmt (draw fmt w)
      else w)"
  by pat_completeness auto
termination
  by (relation "measure (\<lambda>(fmt, w). length (request_iter w) + (if more_requests w then 1 else 0))")
     (auto simp: draw_def split: list.splits)

declare grab.simps [simp del]

text \<open>
  The write: \<^verbatim>\<open>bytes_written = mc_socket.send(request_buffer)\<close>, the buffer loses the
  bytes written, and \<^verbatim>\<open>bytes_written == 0\<close> raises. The socket accepts no more bytes
  than it is given.
\<close>

definition do_send :: "event \<Rightarrow> ('r, 'a) worker \<Rightarrow> ('r, 'a) step" where
  "do_send e w =
     (case on_send e of
        SendRaises \<Rightarrow> Inl (SocketError, w)
      | Accepts n \<Rightarrow>
          (let bytes_written = min n (length (request_buffer w));
               w' = w\<lparr>request_buffer := drop bytes_written (request_buffer w),
                      wire_out := wire_out w @ take bytes_written (request_buffer w)\<rparr>
           in if py_eq (PyInt (int bytes_written)) (PyInt 0)
              then Inl (RuntimeError ''unexpected socket.send()=0'', w')
              else Inr w'))"

text \<open>
  The read: \<^verbatim>\<open>bytes_read = mc_socket.recv(1024)\<close> returns at most 1024 bytes, which are
  appended to the response buffer, and \<^verbatim>\<open>bytes_read == 0\<close> raises. Here
  \<^verbatim>\<open>bytes_read\<close> is the bytes object itself, not its length.
\<close>

definition do_recv :: "event \<Rightarrow> ('r, 'a) worker \<Rightarrow> ('r, 'a) step" where
  "do_recv e w =
     (case on_recv e of
        RecvRaises \<Rightarrow> Inl (SocketError, w)
      | Delivers d \<Rightarrow>
          (let bytes_read = take 1024 d;
               w' = w\<lparr>response_buffer := response_buffer w @ bytes_read,
                      wire_in := wire_in w @ bytes_read\<rparr>
           in if py_eq (PyBytes bytes_read) (PyInt 0)
              then Inl (RuntimeError ''unexpected socket.recv()=0'', w')
              else Inr w'))"

text \<open>
  Select and the two transfers. The socket is in select's write list only when the
  request buffer is not empty, and always in its read list.
\<close>

definition io :: "event \<Rightarrow> ('r, 'a) worker \<Rightarrow> ('r, 'a) step" where
  "io e w =
     (let allow_read = readable e;
          allow_write = (request_buffer w \<noteq> [] \<and> writable e)
      in case (if allow_write then do_send e w else Inr w) of
           Inl raised \<Rightarrow> Inl raised
         | Inr w1 \<Rightarrow> (if allow_read then do_recv e w1 else Inr w1))"

text \<open>
  The body of the \<^verbatim>\<open>for response_string in responses\<close> loop: \<^verbatim>\<open>popleft\<close> raises
  \<^verbatim>\<open>IndexError\<close> on an empty deque; the parameter \<open>parse\<close> is \<^verbatim>\<open>parse_fn\<close> after
  the decoding, None where it raises; the pair is put on the answer queue.
\<close>

definition match_one :: "(bytes \<Rightarrow> 'a option) \<Rightarrow> bytes \<Rightarrow> ('r, 'a) worker \<Rightarrow> ('r, 'a) step" where
  "match_one parse response_string w =
     (case pending_request_queue w of
        [] \<Rightarrow> Inl (IndexError, w)
      | request # queue \<Rightarrow>
          (case parse response_string of
             None \<Rightarrow> Inl (ValueError, w\<lparr>pending_request_queue := queue\<rparr>)
           | Some answer \<Rightarrow>
               Inr (w\<lparr>pending_request_queue := queue,
                      answer_queue := answer_queue w @ [(request, answer)]\<rparr>)))"

fun emit :: "(bytes \<Rightarrow> 'a option) \<Rightarrow> bytes list \<Rightarrow> ('r, 'a) worker \<Rightarrow> ('r, 'a) step" where
  "emit parse [] w = Inr w"
| "emit parse (response_string # rest) w =
     (case match_one parse response_string w of
        Inl raised \<Rightarrow> Inl raised
      | Inr w' \<Rightarrow> emit parse rest w')"

text \<open>
  \<^verbatim>\<open>responses = response_buffer.split(b"\n")\<close>, \<^verbatim>\<open>response_buffer = responses[-1]\<close>,
  \<^verbatim>\<open>responses = responses[:-1]\<close>: the last segment stays as the new response buffer,
  the others are the complete lines.
\<close>

definition take_lines :: "('r, 'a) worker \<Rightarrow> bytes list \<times> ('r, 'a) worker" where
  "take_lines w =
     (let responses = py_split newline (response_buffer w)
      in (butlast responses, w\<lparr>response_buffer := last responses\<rparr>))"

definition parse_responses :: "(bytes \<Rightarrow> 'a option) \<Rightarrow> ('r, 'a) worker \<Rightarrow> ('r, 'a) step" where
  "parse_responses parse w =
     (case take_lines w of (responses, w') \<Rightarrow> emit parse responses w')"

text \<open>
  What follows the inner loop in one pass of the outer loop: select, write once, read
  once, parse.
\<close>

definition iteration :: "(bytes \<Rightarrow> 'a option) \<Rightarrow> event \<Rightarrow> ('r, 'a) worker \<Rightarrow> ('r, 'a) step" where
  "iteration parse e w =
     (case io e w of
        Inl raised \<Rightarrow> Inl raised
      | Inr w2 \<Rightarrow> parse_responses parse w2)"

text \<open>
  The outer loop \<^verbatim>\<open>while more_requests or len(pending_request_queue) > 0\<close>, run on the
  events of the socket. It returns, raises, or is still in the loop when the events end:
  the worker then waits in select for as long as nothing more happens on the socket.
  The \<^verbatim>\<open>continue\<close> after the inner loop goes to the loop's test, which then fails.
\<close>

datatype ('r, 'a) outcome =
  Returns "('r, 'a) worker"
  | Raises error "('r, 'a) worker"
  | Waits "('r, 'a) worker"

fun worker_loop ::
  "('r \<Rightarrow> bytes) \<Rightarrow> (bytes \<Rightarrow> 'a option) \<Rightarrow> event list \<Rightarrow> ('r, 'a) worker \<Rightarrow> ('r, 'a) outcome"
where
  "worker_loop fmt parse [] w =
     (if more_requests w \<or> pending_request_queue w \<noteq> []
      then (let w1 = grab fmt w
            in if \<not> (more_requests w1 \<or> pending_request_queue w1 \<noteq> [])
               then Returns w1
               else Waits w1)
      else Returns w)"
| "worker_loop fmt parse (e # es) w =
     (if more_requests w \<or> pending_request_queue w \<noteq> []
      then (let w1 = grab fmt w
            in if \<not> (more_requests w1 \<or> pending_request_queue w1 \<noteq> [])
               then Returns w1
               else (case iteration parse e w1 of
                       Inl (err, w2) \<Rightarrow> Raises err w2
                     | Inr w2 \<Rightarrow> worker_loop fmt parse es w2))
      else Returns w)"

text \<open>
  \<^verbatim>\<open>worker_fn(mc_socket, request_iter, request_lock, answer_queue)\<close>: the locals start
  as in the source.
\<close>

definition start :: "'r list \<Rightarrow> ('r \<times> 'a) list \<Rightarrow> ('r, 'a) worker" where
  "start it q =
     \<lparr>request_iter = it, answer_queue = q, more_requests = True,
      request_buffer = [], response_buffer = [], pending_request_queue = [],
      wire_out = [], wire_in = []\<rparr>"

definition worker_fn ::
  "('r \<Rightarrow> bytes) \<Rightarrow> (bytes \<Rightarrow> 'a option) \<Rightarrow> event list \<Rightarrow> 'r list \<Rightarrow> ('r \<times> 'a) list
     \<Rightarrow> ('r, 'a) outcome"
where
  "worker_fn fmt parse mc_socket it q = worker_loop fmt parse mc_socket (start it q)"

definition state_of :: "('r, 'a) outcome \<Rightarrow> ('r, 'a) worker" where
  "state_of out = (case out of Returns w \<Rightarrow> w | Raises err w \<Rightarrow> w | Waits w \<Rightarrow> w)"

section \<open>Worker threads\<close>

text \<open>
  With \<^verbatim>\<open>thread_count > 0\<close> the workers run as threads. A thread is at one of the
  places of \<^verbatim>\<open>worker_fn\<close>: at the test of the outer loop, in the inner loop, before the
  \<^verbatim>\<open>continue\<close> test and select, in the \<^verbatim>\<open>for\<close> loop with the response strings still
  to match, returned, or ended by an exception. One step of a thread is one pass of the
  inner loop (under the lock), one select with its transfers, or one pass of the
  \<^verbatim>\<open>for\<close> loop; between two steps of a thread any other thread may run.
\<close>

datatype place = Head | Inner | Ready | Matching "bytes list" | Exited | Died error

fun advance ::
  "('r \<Rightarrow> bytes) \<Rightarrow> (bytes \<Rightarrow> 'a option) \<Rightarrow> place \<Rightarrow> event list \<Rightarrow> ('r, 'a) worker
     \<Rightarrow> place \<times> event list \<times> ('r, 'a) worker"
where
  "advance fmt parse Head es w =
     (if more_requests w \<or> pending_request_queue w \<noteq> [] then (Inner, es, w)
      else (Exited, es, w))"
| "advance fmt parse Inner es w =
     (if more_requests w \<and> length (request_buffer w) < 4096 then (Inner, es, draw fmt w)
      else (Ready, es, w))"
| "advance fmt parse Ready es w =
     (if \<not> (more_requests w \<or> pending_request_queue w \<noteq> []) then (Head, es, w)
      else (case es of
              [] \<Rightarrow> (Ready, [], w)
            | e # es' \<Rightarrow>
                (case io e w of
                   Inl (err, w') \<Rightarrow> (Died err, es', w')
                 | Inr w' \<Rightarrow>
                     (case take_lines w' of
                        (responses, w'') \<Rightarrow> (Matching responses, es', w'')))))"
| "advance fmt parse (Matching []) es w = (Head, es, w)"
| "advance fmt parse (Matching (response_string # rest)) es w =
     (case match_one parse response_string w of
        Inl (err, w') \<Rightarrow> (Died err, es, w')
      | Inr w' \<Rightarrow> (Matching rest, es, w'))"
| "advance fmt parse Exited es w = (Exited, es, w)"
| "advance fmt parse (Died err) es w = (Died err, es, w)"

text \<open>
  The objects the threads share are the iterators that \<^verbatim>\<open>iter(requests)\<close> has returned
  and the answer queue. A thread holds the index of its iterator, the events of its
  socket and the locals of its \<^verbatim>\<open>worker_fn\<close> call; the fields \<open>request_iter\<close> and
  \<open>answer_queue\<close> of these locals are read from the shared objects before a step and
  written back after it.
\<close>

record ('r, 'a) thread =
  place_of :: place
  iter_ref :: nat
  socket_events :: "event list"
  frame :: "('r, 'a) worker"

record ('r, 'a) system =
  iterators :: "'r list list"
  queue :: "('r \<times> 'a) list"
  threads :: "('r, 'a) thread list"

definition run_thread ::
  "('r \<Rightarrow> bytes) \<Rightarrow> (bytes \<Rightarrow> 'a option) \<Rightarrow> nat \<Rightarrow> ('r, 'a) system \<Rightarrow> ('r, 'a) system"
where
  "run_thread fmt parse i s =
     (if i < length (threads s) then
        (let t = threads s ! i;
             view = (frame t)\<lparr>request_iter := iterators s ! iter_ref t, answer_queue := queue s\<rparr>
         in case advance fmt parse (place_of t) (socket_events t) view of
              (p, es, w) \<Rightarrow>
                s\<lparr>iterators := (iterators s)[iter_ref t := request_iter w],
                  queue := answer_queue w,
                  threads := (threads s)[i := t\<lparr>place_of := p, socket_events := es, frame := w\<rparr>]\<rparr>)
      else s)"

text \<open>A schedule names the thread that takes the next step.\<close>

definition run_schedule ::
  "('r \<Rightarrow> bytes) \<Rightarrow> (bytes \<Rightarrow> 'a option) \<Rightarrow> nat list \<Rightarrow> ('r, 'a) system \<Rightarrow> ('r, 'a) system"
where
  "run_schedule fmt parse schedule s = fold (run_thread fmt parse) schedule s"

text \<open>
  \<^verbatim>\<open>w.join()\<close> returns when the thread has ended, by a return or by an exception: an
  exception in a thread ends that thread only and is not raised in the thread that joins.
\<close>

definition ended :: "('r, 'a) thread \<Rightarrow> bool" where
  "ended t = (case place_of t of Exited \<Rightarrow> True | Died err \<Rightarrow> True | _ \<Rightarrow> False)"

section \<open>The batch operation\<close>

text \<open>
  The \<^verbatim>\<open>requests\<close> argument is an iterable: for a sequence (a list, a tuple, a
  \<^verbatim>\<open>vector_range\<close>) every \<^verbatim>\<open>iter(requests)\<close> returns a new iterator that starts at the
  first item; for an iterator or a generator \<^verbatim>\<open>iter(requests)\<close> returns the object
  itself.
\<close>

datatype 'r iterable = Sequence "'r list" | Iterator "'r list"

definition items :: "'r iterable \<Rightarrow> 'r list" where
  "items requests = (case requests of Sequence xs \<Rightarrow> xs | Iterator xs \<Rightarrow> xs)"

text \<open>
  What a new socket will meet: whether \<^verbatim>\<open>connect\<close> succeeds, the events of the
  connection, and whether \<^verbatim>\<open>shutdown\<close> and \<^verbatim>\<open>close\<close> raise \<^verbatim>\<open>socket.error\<close>. A socket
  object records what has been done to it.
\<close>

record peer =
  connects :: bool
  traffic :: "event list"
  shutdown_raises :: bool
  close_raises :: bool

record sock =
  peer_of :: peer
  connected :: bool
  shut_down :: bool
  closed :: bool

text \<open>
  The first \<^verbatim>\<open>for\<close> loop of the \<^verbatim>\<open>try\<close> block: the new socket is appended to
  \<^verbatim>\<open>sockets\<close> before it is connected. The result says whether every connect succeeded.
\<close>

fun connect_all :: "(nat \<Rightarrow> peer) \<Rightarrow> nat list \<Rightarrow> sock list \<Rightarrow> bool \<times> sock list" where
  "connect_all peers [] sockets = (True, sockets)"
| "connect_all peers (i # rest) sockets =
     (let s = \<lparr>peer_of = peers i, connected = False, shut_down = False, closed = False\<rparr>
      in if connects (peers i)
         then connect_all peers rest (sockets @ [s\<lparr>connected := True\<rparr>])
         else (False, sockets @ [s]))"

text \<open>
  The body of the \<^verbatim>\<open>finally\<close> loop: \<^verbatim>\<open>s.shutdown(socket.SHUT_RDWR)\<close> and \<^verbatim>\<open>s.close()\<close>
  are in one \<^verbatim>\<open>try\<close>, whose \<^verbatim>\<open>except socket.error\<close> passes.
\<close>

definition release :: "sock \<Rightarrow> sock" where
  "release s =
     (if shutdown_raises (peer_of s) then s
      else if close_raises (peer_of s) then s\<lparr>shut_down := True\<rparr>
      else s\<lparr>shut_down := True, closed := True\<rparr>)"

text \<open>
  The second \<^verbatim>\<open>for\<close> loop: thread \<^verbatim>\<open>w\<close> gets \<^verbatim>\<open>sockets[w]\<close> and \<^verbatim>\<open>iter(requests)\<close>,
  evaluated once for each thread.
\<close>

definition spawn :: "'r iterable \<Rightarrow> sock list \<Rightarrow> ('r, 'a) system" where
  "spawn requests sockets =
     \<lparr>iterators = (case requests of
                     Sequence xs \<Rightarrow> replicate (length sockets) xs
                   | Iterator xs \<Rightarrow> [xs]),
      queue = [],
      threads = map (\<lambda>w. \<lparr>place_of = Head,
                            iter_ref = (case requests of Sequence xs \<Rightarrow> w | Iterator xs \<Rightarrow> 0),
                            socket_events = traffic (peer_of (sockets ! w)),
                            frame = start [] []\<rparr>)
                    [0..<length sockets]\<rparr>"

text \<open>
  What a call of the body gives: the list it goes on to yield, an exception, or no return
  (a worker that stays in its loop, a join that does not return).
\<close>

datatype 'x result = Gives 'x | Fails error | NoReturn

text \<open>
  The effects of a run of the body next to its result: the bytes written to the
  caller's socket, the sockets opened with what was done to them, the number of threads
  started, and the number of times \<^verbatim>\<open>iter(requests)\<close> was evaluated.
\<close>

record ('r, 'a) run =
  result :: "('r \<times> 'a) list result"
  written :: bytes
  sockets :: "sock list"
  started :: nat
  iter_calls :: nat

text \<open>
  What is outside the program during a run: the events of the caller's socket, the
  peers of the sockets to be opened, and the schedule of the threads.
\<close>

record env =
  conn_events :: "event list"
  peers :: "nat \<Rightarrow> peer"
  schedule :: "nat list"

text \<open>The branch \<^verbatim>\<open>thread_count == 0\<close>: one worker on the caller's socket.\<close>

definition inline ::
  "('r \<Rightarrow> bytes) \<Rightarrow> (bytes \<Rightarrow> 'a option) \<Rightarrow> 'r iterable \<Rightarrow> env \<Rightarrow> ('r, 'a) run"
where
  "inline fmt parse requests en =
     (let out = worker_fn fmt parse (conn_events en) (items requests) []
      in \<lparr>result = (case out of
                      Returns w \<Rightarrow> Gives (answer_queue w)
                    | Raises err w \<Rightarrow> Fails err
                    | Waits w \<Rightarrow> NoReturn),
          written = wire_out (state_of out),
          sockets = [], started = 0, iter_calls = 1\<rparr>)"

text \<open>
  The \<^verbatim>\<open>else\<close> branch. A failed connect raises \<^verbatim>\<open>socket.error\<close>, which is printed and
  raised again after the \<^verbatim>\<open>finally\<close> block. Otherwise the threads run; when all have
  ended the joins return, the \<^verbatim>\<open>finally\<close> block releases the sockets and the body goes
  on to the answer queue. When the schedule ends before every thread has ended, the
  joins have not returned.
\<close>

definition threaded ::
  "('r \<Rightarrow> bytes) \<Rightarrow> (bytes \<Rightarrow> 'a option) \<Rightarrow> nat \<Rightarrow> 'r iterable \<Rightarrow> env \<Rightarrow> ('r, 'a) run"
where
  "threaded fmt parse thread_count requests en =
     (case connect_all (peers en) [0..<thread_count] [] of
        (False, socks) \<Rightarrow>
          \<lparr>result = Fails SocketError, written = [], sockets = map release socks,
           started = 0, iter_calls = 0\<rparr>
      | (True, socks) \<Rightarrow>
          (let s = run_schedule fmt parse (schedule en) (spawn requests socks)
           in if list_all ended (threads s)
              then \<lparr>result = Gives (queue s), written = [], sockets = map release socks,
                    started = thread_count, iter_calls = thread_count\<rparr>
              else \<lparr>result = NoReturn, written = [], sockets = socks,
                    started = thread_count, iter_calls = thread_count\<rparr>))"

definition body ::
  "('r \<Rightarrow> bytes) \<Rightarrow> (bytes \<Rightarrow> 'a option) \<Rightarrow> nat \<Rightarrow> 'r iterable \<Rightarrow> env \<Rightarrow> ('r, 'a) run"
where
  "body fmt parse thread_count requests en =
     (if thread_count = 0 then inline fmt parse requests en
      else threaded fmt parse thread_count requests en)"

text \<open>
  \<^verbatim>\<open>query_blocks\<close> has a \<^verbatim>\<open>yield\<close> in its body, so a call returns a generator object and
  runs nothing of the body; the body runs at the first \<^verbatim>\<open>next\<close>, up to the first
  \<^verbatim>\<open>yield\<close>. The effects of the program are collected in a \<open>world\<close>.
\<close>

datatype ('r, 'a) generator =
  Created "'r \<Rightarrow> bytes" "bytes \<Rightarrow> 'a option" nat "'r iterable"
  | Suspended "('r \<times> 'a) list"
  | Closed

record world =
  conn_written :: bytes
  opened :: "sock list"
  threads_started :: nat
  iterations :: nat

definition query_blocks ::
  "'r iterable \<Rightarrow> ('r \<Rightarrow> bytes) \<Rightarrow> (bytes \<Rightarrow> 'a option) \<Rightarrow> nat \<Rightarrow> world
     \<Rightarrow> ('r, 'a) generator \<times> world"
where
  "query_blocks requests fmt parse_fn thread_count wd =
     (Created fmt parse_fn thread_count requests, wd)"

datatype ('r, 'a) signal = Yield "'r \<times> 'a" | StopIteration | Raise error | Never

definition after :: "world \<Rightarrow> ('r, 'a) run \<Rightarrow> world" where
  "after wd r =
     \<lparr>conn_written = conn_written wd @ written r,
      opened = opened wd @ sockets r,
      threads_started = threads_started wd + started r,
      iterations = iterations wd + iter_calls r\<rparr>"

fun gen_next ::
  "env \<Rightarrow> ('r, 'a) generator \<Rightarrow> world \<Rightarrow> ('r, 'a) signal \<times> ('r, 'a) generator \<times> world"
where
  "gen_next en (Created fmt parse_fn thread_count requests) wd =
     (let r = body fmt parse_fn thread_count requests en
      in case result r of
           Fails err \<Rightarrow> (Raise err, Closed, after wd r)
         | NoReturn \<Rightarrow> (Never, Closed, after wd r)
         | Gives [] \<Rightarrow> (StopIteration, Closed, after wd r)
         | Gives (pair # rest) \<Rightarrow> (Yield pair, Suspended rest, after wd r))"
| "gen_next en (Suspended []) wd = (StopIteration, Closed, wd)"
| "gen_next en (Suspended (pair # rest)) wd = (Yield pair, Suspended rest, wd)"
| "gen_next en Closed wd = (StopIteration, Closed, wd)"

text \<open>
  Iterating a generator to its end, as a \<^verbatim>\<open>for\<close> clause of a comprehension does: the
  first \<^verbatim>\<open>next\<close> runs the body, the later ones take the pairs that are left.
\<close>

definition consume ::
  "env \<Rightarrow> ('r, 'a) generator \<Rightarrow> world \<Rightarrow> ('r \<times> 'a) list result \<times> world"
where
  "consume en g wd =
     (case gen_next en g wd of
        (Yield pair, Suspended rest, wd') \<Rightarrow> (Gives (pair # rest), wd')
      | (Yield pair, _, wd') \<Rightarrow> (Gives [pair], wd')
      | (StopIteration, _, wd') \<Rightarrow> (Gives [], wd')
      | (Raise err, _, wd') \<Rightarrow> (Fails err, wd')
      | (Never, _, wd') \<Rightarrow> (NoReturn, wd'))"

section \<open>The two adapters\<close>

text \<open>
  \<^verbatim>\<open>%d\<close> of an int, and \<^verbatim>\<open>int\<close> of a reply: decimal digits with a minus sign for a
  negative number. \<^verbatim>\<open>int\<close> is modelled for such texts, which are the replies of the
  server; on every other text the model raises \<^verbatim>\<open>ValueError\<close>, where Python also takes
  a plus sign, white space around the number and underscores between digits.
\<close>

fun digits :: "nat \<Rightarrow> string" where
  "digits n =
     (if n < 10 then [''0123456789'' ! n]
      else digits (n div 10) @ [''0123456789'' ! (n mod 10)])"

declare digits.simps [simp del]

definition percent_d :: "int \<Rightarrow> string" where
  "percent_d i = (if i < 0 then CHR ''-'' # digits (nat (- i)) else digits (nat i))"

definition digit_value :: "char \<Rightarrow> nat option" where
  "digit_value c =
     (let n = (of_char c :: nat) in if 48 \<le> n \<and> n \<le> 57 then Some (n - 48) else None)"

fun digits_value :: "nat \<Rightarrow> string \<Rightarrow> nat option" where
  "digits_value acc [] = Some acc"
| "digits_value acc (c # cs) =
     (case digit_value c of
        None \<Rightarrow> None
      | Some d \<Rightarrow> digits_value (10 * acc + d) cs)"

definition py_int :: "string \<Rightarrow> int option" where
  "py_int s =
     (case s of
        [] \<Rightarrow> None
      | c # cs \<Rightarrow>
          if c = CHR ''-''
          then (if cs = [] then None else map_option (\<lambda>n. - int n) (digits_value 0 cs))
          else map_option int (digits_value 0 s))"

text \<open>
  A position of \<^verbatim>\<open>picraft\<close> is a \<^verbatim>\<open>Vector(x, y, z)\<close>; \<^verbatim>\<open>picraft.Block(*t)\<close> is applied
  to the items of the parsed tuple.
\<close>

datatype vector = Vector int int int

datatype block = Block "int list"

text \<open>
  \<^verbatim>\<open>"world.getBlockWithData(%d,%d,%d)" % v\<close> and
  \<^verbatim>\<open>lambda ans: tuple(map(int, ans.split(",")))\<close>.
\<close>

fun getBlockWithData :: "vector \<Rightarrow> bytes" where
  "getBlockWithData (Vector x y z) =
     ''world.getBlockWithData('' @ percent_d x @ '','' @ percent_d y @ '','' @ percent_d z @ '')''"

definition int_tuple :: "bytes \<Rightarrow> int list option" where
  "int_tuple ans = those (map py_int (py_split (CHR '','') ans))"

text \<open>\<^verbatim>\<open>"world.getHeight(%d,%d)" % pos\<close> for \<^verbatim>\<open>pos = (v[0], v[2])\<close>.\<close>

fun getHeight :: "int \<times> int \<Rightarrow> bytes" where
  "getHeight (x, z) = ''world.getHeight('' @ percent_d x @ '','' @ percent_d z @ '')''"

text \<open>
  The dictionary comprehension \<^verbatim>\<open>{pos: data for (pos, data) in ...}\<close>: a later pair
  replaces an earlier one with the same key.
\<close>

definition dict_of :: "('k \<times> 'v) list \<Rightarrow> ('k \<rightharpoonup> 'v)" where
  "dict_of pairs = fold (\<lambda>(pos, data) d. d(pos \<mapsto> data)) pairs Map.empty"

text \<open>
  \<^verbatim>\<open>[picraft.Block(*ans[v]) for v in vrange]\<close>: \<^verbatim>\<open>ans[v]\<close> raises \<^verbatim>\<open>KeyError\<close> for a
  key that is not in the dictionary.
\<close>

fun blocks_of :: "(vector \<rightharpoonup> int list) \<Rightarrow> vector list \<Rightarrow> block list result" where
  "blocks_of ans [] = Gives []"
| "blocks_of ans (v # vs) =
     (case ans v of
        None \<Rightarrow> Fails KeyError
      | Some data \<Rightarrow>
          (case blocks_of ans vs of
             Gives bs \<Rightarrow> Gives (Block data # bs)
           | Fails err \<Rightarrow> Fails err
           | NoReturn \<Rightarrow> NoReturn))"

text \<open>
  \<^verbatim>\<open>alt_picraft_getblock_vrange(world, vrange)\<close>: \<^verbatim>\<open>vrange\<close> itself is the \<^verbatim>\<open>requests\<close>
  argument, \<^verbatim>\<open>thread_count\<close> has its default 0, and the list comprehension iterates
  \<^verbatim>\<open>vrange\<close> once more. Next to the result stands the number of times \<^verbatim>\<open>vrange\<close> was
  iterated: the \<^verbatim>\<open>iter(requests)\<close> of the run and the comprehension.
\<close>

definition alt_picraft_getblock_vrange ::
  "env \<Rightarrow> vector list \<Rightarrow> world \<Rightarrow> block list result \<times> nat \<times> world"
where
  "alt_picraft_getblock_vrange en vrange wd =
     (case query_blocks (Sequence vrange) getBlockWithData int_tuple 0 wd of
        (g, wd1) \<Rightarrow>
          (case consume en g wd1 of
             (Gives pairs, wd2) \<Rightarrow>
               (blocks_of (dict_of pairs) vrange, (iterations wd2 - iterations wd) + 1, wd2)
           | (Fails err, wd2) \<Rightarrow> (Fails err, iterations wd2 - iterations wd, wd2)
           | (NoReturn, wd2) \<Rightarrow> (NoReturn, iterations wd2 - iterations wd, wd2)))"

text \<open>
  \<^verbatim>\<open>alt_picraft_getheight_vrange(world, vrange)\<close>: the \<^verbatim>\<open>requests\<close> argument is the
  generator expression \<^verbatim>\<open>((v[0], v[2]) for v in vrange)\<close>, which iterates \<^verbatim>\<open>vrange\<close>
  once; \<^verbatim>\<open>query_blocks\<close> iterates the generator, with \<^verbatim>\<open>thread_count = 0\<close>, and the
  list comprehension makes \<^verbatim>\<open>Vector(pos[0], data, pos[1])\<close> of every pair in the order
  the pairs are yielded.
\<close>

definition alt_picraft_getheight_vrange ::
  "env \<Rightarrow> vector list \<Rightarrow> world \<Rightarrow> vector list result \<times> nat \<times> world"
where
  "alt_picraft_getheight_vrange en vrange wd =
     (case query_blocks (Iterator (map (\<lambda>v. case v of Vector x y z \<Rightarrow> (x, z)) vrange))
             getHeight py_int 0 wd of
        (g, wd1) \<Rightarrow>
          (case consume en g wd1 of
             (Gives pairs, wd2) \<Rightarrow>
               (Gives (map (\<lambda>(pos, data). Vector (fst pos) data (snd pos)) pairs), 1, wd2)
           | (Fails err, wd2) \<Rightarrow> (Fails err, 1, wd2)
           | (NoReturn, wd2) \<Rightarrow> (NoReturn, 1, wd2)))"

section \<open>What is assumed of a server\<close>

text \<open>
  The properties of the events of a socket that the statements below name. An event is
  \<open>healthy\<close> when its send accepts at least one byte and neither transfer raises.
  \<open>delivered\<close> are the bytes that the reads of a list of events return. The server's
  replies to a list of requests, one line each, are \<open>replies\<close>.
\<close>

definition healthy :: "event \<Rightarrow> bool" where
  "healthy e =
     ((case on_send e of Accepts n \<Rightarrow> 0 < n | SendRaises \<Rightarrow> False) \<and>
      (case on_recv e of Delivers d \<Rightarrow> True | RecvRaises \<Rightarrow> False))"

definition delivery :: "event \<Rightarrow> bytes" where
  "delivery e =
     (if readable e then (case on_recv e of Delivers d \<Rightarrow> take 1024 d | RecvRaises \<Rightarrow> [])
      else [])"

definition delivered :: "event list \<Rightarrow> bytes" where
  "delivered es = concat (map delivery es)"

definition replies :: "('r \<Rightarrow> bytes) \<Rightarrow> 'r list \<Rightarrow> bytes" where
  "replies reply rs = concat (map (\<lambda>r. reply r @ [newline]) rs)"

text \<open>
  A server answers a request after it has received it: at no moment has the worker read
  more complete lines than it has written complete commands. \<open>in_step\<close> says so of one
  state, \<open>causal\<close> of the states the worker is in after every prefix of the events.
\<close>

definition in_step :: "('r, 'a) worker \<Rightarrow> bool" where
  "in_step w = (count_list (wire_in w) newline \<le> count_list (wire_out w) newline)"

definition causal ::
  "('r \<Rightarrow> bytes) \<Rightarrow> (bytes \<Rightarrow> 'a option) \<Rightarrow> event list \<Rightarrow> 'r list \<Rightarrow> bool"
where
  "causal fmt parse es rs =
     list_all (\<lambda>p. in_step (state_of (worker_fn fmt parse p rs []))) (prefixes es)"

section \<open>The bookkeeping of a worker\<close>

text \<open>
  What holds of a worker between two passes of its loop, for the list \<open>rs\<close> of the
  requests that its iterator had at the start: the requests answered, pending and still
  in the iterator are \<open>rs\<close>, in this order; \<^verbatim>\<open>more_requests\<close> is False only when the
  iterator is exhausted; the bytes written and the request buffer are the commands of the
  requests drawn; the response buffer is what follows the last terminator read; and the
  answers are the parsed complete lines read.
\<close>

definition commands :: "('r \<Rightarrow> bytes) \<Rightarrow> 'r list \<Rightarrow> bytes" where
  "commands fmt rs = concat (map (\<lambda>r. fmt r @ [newline]) rs)"

definition accounted ::
  "('r \<Rightarrow> bytes) \<Rightarrow> (bytes \<Rightarrow> 'a option) \<Rightarrow> 'r list \<Rightarrow> ('r, 'a) worker \<Rightarrow> bool"
where
  "accounted fmt parse rs w =
     (map fst (answer_queue w) @ pending_request_queue w @ request_iter w = rs \<and>
      (more_requests w \<or> request_iter w = []) \<and>
      wire_out w @ request_buffer w
        = commands fmt (map fst (answer_queue w) @ pending_request_queue w) \<and>
      response_buffer w = last (py_split newline (wire_in w)) \<and>
      map (\<lambda>p. Some (snd p)) (answer_queue w)
        = map parse (butlast (py_split newline (wire_in w))))"

section \<open>A scenario\<close>

text \<open>
  Three block queries on one connection: the socket takes the three commands in one
  write, and one read then returns the three replies \<^verbatim>\<open>"1,0\n2,0\n3,0\n"\<close>.
\<close>

definition scenario_requests :: "vector list" where
  "scenario_requests = [Vector 0 0 0, Vector 1 0 0, Vector 2 0 0]"

definition scenario_reply :: "vector \<Rightarrow> bytes" where
  "scenario_reply v = (case v of Vector x y z \<Rightarrow> percent_d (x + 1) @ '',0'')"

definition scenario_answer :: "vector \<Rightarrow> int list" where
  "scenario_answer v = (case v of Vector x y z \<Rightarrow> [x + 1, 0])"

definition scenario_events :: "event list" where
  "scenario_events =
     [\<lparr>readable = False, writable = True, on_send = Accepts 4096, on_recv = Delivers []\<rparr>,
      \<lparr>readable = True, writable = False, on_send = Accepts 1,
       on_recv = Delivers (''1,0'' @ [newline] @ ''2,0'' @ [newline] @ ''3,0'' @ [newline])\<rparr>]"

text \<open>
  The world before the program has done anything, and an environment for the scenario:
  no socket other than the caller's is ever asked for; a peer that refuses stands for
  those.
\<close>

definition untouched :: world where
  "untouched = \<lparr>conn_written = [], opened = [], threads_started = 0, iterations = 0\<rparr>"

definition refusing :: peer where
  "refusing = \<lparr>connects = False, traffic = [], shutdown_raises = False, close_raises = False\<rparr>"

definition scenario_env :: env where
  "scenario_env = \<lparr>conn_events = scenario_events, peers = (\<lambda>i. refusing), schedule = []\<rparr>"

section \<open>Two runs with threads\<close>

text \<open>
  A peer that takes a command and answers \<^verbatim>\<open>"1,0\n"\<close>, and a run of two threads that
  take their steps in turn.
\<close>

definition answering :: peer where
  "answering =
     \<lparr>connects = True,
      traffic =
        [\<lparr>readable = False, writable = True, on_send = Accepts 4096, on_recv = Delivers []\<rparr>,
         \<lparr>readable = True, writable = False, on_send = Accepts 1,
          on_recv = Delivers (''1,0'' @ [newline])\<rparr>],
      shutdown_raises = False, close_raises = False\<rparr>"

definition two_threads :: env where
  "two_threads =
     \<lparr>conn_events = [], peers = (\<lambda>i. answering),
      schedule = [0, 1, 0, 1, 0, 1, 0, 1, 0, 1, 0, 1, 0, 1, 0, 1, 0, 1, 0, 1, 0, 1, 0, 1]\<rparr>"

text \<open>
  A peer that takes the commands, answers the first with \<^verbatim>\<open>"1,0\n"\<close> and then resets
  the connection: the next \<^verbatim>\<open>recv\<close> raises \<^verbatim>\<open>socket.error\<close>, and so does
  \<^verbatim>\<open>shutdown\<close>. The caller's socket meets the same events when \<^verbatim>\<open>thread_count\<close> is 0.
\<close>

definition breaking :: peer where
  "breaking =
     \<lparr>connects = True,
      traffic =
        [\<lparr>readable = True, writable = True, on_send = Accepts 4096,
          on_recv = Delivers (''1,0'' @ [newline])\<rparr>,
         \<lparr>readable = True, writable = False, on_send = Accepts 1, on_recv = RecvRaises\<rparr>],
      shutdown_raises = True, close_raises = False\<rparr>"

definition one_thread :: env where
  "one_thread =
     \<lparr>conn_events = traffic breaking, peers = (\<lambda>i. breaking),
      schedule = [0, 0, 0, 0, 0, 0, 0, 0, 0, 0, 0, 0]\<rparr>"

text \<open>
  The same positions asked for their heights: one write takes the three commands, one
  read returns \<^verbatim>\<open>"64\n65\n66\n"\<close>.
\<close>

definition height_reply :: "int \<times> int \<Rightarrow> bytes" where
  "height_reply p = percent_d (64 + fst p)"

definition height_env :: env where
  "height_env =
     \<lparr>conn_events =
        [\<lparr>readable = False, writable = True, on_send = Accepts 4096, on_recv = Delivers []\<rparr>,
         \<lparr>readable = True, writable = False, on_send = Accepts 1,
          on_recv = Delivers (''64'' @ [newline] @ ''65'' @ [newline] @ ''66'' @ [newline])\<rparr>],
      peers = (\<lambda>i. refusing), schedule = []\<rparr>"

section \<open>A thread on its own\<close>

text \<open>
  The steps of one thread when no other thread runs in between, on the thread's place,
  the events of its socket and the state it reads and writes.
\<close>

definition thread_steps ::
  "('r \<Rightarrow> bytes) \<Rightarrow> (bytes \<Rightarrow> 'a option) \<Rightarrow> nat
     \<Rightarrow> place \<times> event list \<times> ('r, 'a) worker \<Rightarrow> place \<times> event list \<times> ('r, 'a) worker"
where
  "thread_steps fmt parse n c = ((\<lambda>(p, es, w). advance fmt parse p es w) ^^ n) c"

text \<open>
  A system of one thread: what the thread reads and writes, taken from the system.
\<close>

definition single :: "('r, 'a) system \<Rightarrow> bool" where
  "single s =
     (length (threads s) = 1 \<and> length (iterators s) = 1 \<and> iter_ref (hd (threads s)) = 0)"

definition single_view :: "('r, 'a) system \<Rightarrow> place \<times> event list \<times> ('r, 'a) worker" where
  "single_view s =
     (place_of (hd (threads s)), socket_events (hd (threads s)),
      (frame (hd (threads s)))\<lparr>request_iter := hd (iterators s), answer_queue := queue s\<rparr>)"

section \<open>Passes of the loop, one after the other\<close>

text \<open>
  The part of a pass that follows the inner loop, for one event of the socket after the
  other, up to the first raise: what \<open>worker_loop\<close> does with the events while its
  tests let it go on and its inner loop draws nothing.
\<close>

fun passes :: "(bytes \<Rightarrow> 'a option) \<Rightarrow> event list \<Rightarrow> ('r, 'a) worker \<Rightarrow> ('r, 'a) step" where
  "passes parse [] w = Inr w"
| "passes parse (e # es) w =
     (case iteration parse e w of
        Inl raised \<Rightarrow> Inl raised
      | Inr w' \<Rightarrow> passes parse es w')"

text \<open>
  The complete lines of a text, and what follows its last terminator: the two parts that
  \<open>take_lines\<close> makes of the response buffer.
\<close>

definition complete_lines :: "bytes \<Rightarrow> bytes list" where
  "complete_lines buffer = butlast (py_split newline buffer)"

definition retained :: "bytes \<Rightarrow> bytes" where
  "retained buffer = last (py_split newline buffer)"

section \<open>Splitting into lines\<close>

lemma py_split_nonempty [simp]: "py_split sep xs \<noteq> []"
  by (induction xs) (auto split: list.splits)

lemma py_split_no_sep:
  "sep \<notin> set xs \<Longrightarrow> py_split sep (xs @ ys) = (xs @ hd (py_split sep ys)) # tl (py_split sep ys)"
  by (induction xs) (auto split: list.splits)

lemma py_split_plain: "sep \<notin> set xs \<Longrightarrow> py_split sep xs = [xs]"
  using py_split_no_sep [of sep xs "[]"] by simp

lemma py_split_append_sep: "py_split sep (xs @ sep # ys) = py_split sep xs @ py_split sep ys"
  by (induction xs) (auto split: list.splits)

lemma py_split_append:
  "py_split sep (xs @ ys) = butlast (py_split sep xs) @ py_split sep (last (py_split sep xs) @ ys)"
  by (induction xs) (auto split: list.splits)

lemma py_split_segments: "seg \<in> set (py_split sep xs) \<Longrightarrow> sep \<notin> set seg"
  by (induction xs arbitrary: seg) (auto split: list.splits if_splits)

lemma py_split_join:
  "concat (map (\<lambda>l. l @ [sep]) (butlast (py_split sep xs))) @ last (py_split sep xs) = xs"
  by (induction xs) (auto split: list.splits)

lemma length_py_split: "length (py_split sep xs) = Suc (count_list xs sep)"
  by (induction xs) (auto split: list.splits)

section \<open>Zero-byte transfers\<close>

lemma grab_stopped: "\<not> more_requests w \<Longrightarrow> grab fmt w = w"
  by (simp add: grab.simps)

lemma do_send_zero:
  "do_send (e\<lparr>on_send := Accepts 0\<rparr>) w = Inl (RuntimeError ''unexpected socket.send()=0'', w)"
  by (simp add: do_send_def)

lemma do_recv_nothing: "do_recv (e\<lparr>on_recv := Delivers []\<rparr>) w = Inr w"
  by (simp add: do_recv_def)

lemma worker_loop_peer_closed:
  "worker_loop fmt parse
     (replicate n \<lparr>readable = True, writable = True, on_send = Accepts 4096, on_recv = Delivers []\<rparr>)
     \<lparr>request_iter = [], answer_queue = q, more_requests = False, request_buffer = [],
      response_buffer = [], pending_request_queue = [r], wire_out = out, wire_in = []\<rparr>
   = Waits \<lparr>request_iter = [], answer_queue = q, more_requests = False, request_buffer = [],
      response_buffer = [], pending_request_queue = [r], wire_out = out, wire_in = []\<rparr>"
  by (induction n)
     (simp_all add: grab_stopped iteration_def io_def do_recv_def parse_responses_def take_lines_def)

text \<open>
  C6. The worker has written one command and the peer has shut the connection down:
  select reports the socket readable and every \<^verbatim>\<open>recv\<close> returns the empty bytes object.
  The test \<^verbatim>\<open>bytes_read == 0\<close> compares that object with an int and is False, so no
  \<^verbatim>\<open>RuntimeError\<close> is raised: after any number of such reads the worker is still in its
  loop, with the request pending.
\<close>

theorem zero_byte_read_is_not_raised:
  "worker_fn (\<lambda>pos. pos) parse
     (replicate (Suc n)
        \<lparr>readable = True, writable = True, on_send = Accepts 4096, on_recv = Delivers []\<rparr>)
     [''world.getBlock(0,0,0)''] []
   = Waits \<lparr>request_iter = [], answer_queue = [], more_requests = False, request_buffer = [],
      response_buffer = [], pending_request_queue = [''world.getBlock(0,0,0)''],
      wire_out = ''world.getBlock(0,0,0)'' @ [newline], wire_in = []\<rparr>"
  by (simp add: worker_fn_def start_def grab.simps draw_def iteration_def io_def do_send_def
        do_recv_def parse_responses_def take_lines_def worker_loop_peer_closed)

section \<open>The bookkeeping is kept by every pass\<close>

lemma accounted_start: "accounted fmt parse rs (start rs [])"
  by (simp add: accounted_def start_def commands_def)

lemma accounted_draw:
  "accounted fmt parse rs w \<Longrightarrow> accounted fmt parse rs (draw fmt w)"
  by (auto simp: accounted_def draw_def commands_def split: list.splits)

lemma accounted_grab:
  "accounted fmt parse rs w \<Longrightarrow> accounted fmt parse rs (grab fmt w)"
proof (induction fmt w rule: grab.induct)
  case (1 fmt w)
  show ?case
  proof (cases "more_requests w \<and> length (request_buffer w) < 4096")
    case True
    then have "grab fmt w = grab fmt (draw fmt w)"
      by (subst grab.simps) simp
    moreover have "accounted fmt parse rs (grab fmt (draw fmt w))"
      using True "1.IH" "1.prems" accounted_draw by blast
    ultimately show ?thesis by simp
  next
    case False
    then have "grab fmt w = w"
      by (subst grab.simps) auto
    then show ?thesis using "1.prems" by simp
  qed
qed

lemma grab_frame:
  "wire_in (grab fmt w) = wire_in w \<and> wire_out (grab fmt w) = wire_out w \<and>
   answer_queue (grab fmt w) = answer_queue w \<and> response_buffer (grab fmt w) = response_buffer w"
proof (induction fmt w rule: grab.induct)
  case (1 fmt w)
  show ?case
  proof (cases "more_requests w \<and> length (request_buffer w) < 4096")
    case True
    then have "grab fmt w = grab fmt (draw fmt w)"
      by (subst grab.simps) simp
    moreover have "wire_in (draw fmt w) = wire_in w \<and> wire_out (draw fmt w) = wire_out w \<and>
      answer_queue (draw fmt w) = answer_queue w \<and> response_buffer (draw fmt w) = response_buffer w"
      by (simp add: draw_def split: list.splits)
    ultimately show ?thesis using True "1.IH" by simp
  next
    case False
    then have "grab fmt w = w"
      by (subst grab.simps) auto
    then show ?thesis by simp
  qed
qed

text \<open>What the for loop does, in closed form.\<close>

lemma emit_Inr:
  "emit parse ls w = Inr w' \<Longrightarrow>
     length ls \<le> length (pending_request_queue w) \<and>
     (\<forall>l \<in> set ls. parse l \<noteq> None) \<and>
     w' = w\<lparr>pending_request_queue := drop (length ls) (pending_request_queue w),
            answer_queue := answer_queue w
               @ zip (take (length ls) (pending_request_queue w)) (map (\<lambda>l. the (parse l)) ls)\<rparr>"
proof (induction ls arbitrary: w)
  case Nil
  then show ?case by simp
next
  case (Cons l ls)
  from Cons.prems obtain request waiting answer where
    p: "pending_request_queue w = request # waiting" and a: "parse l = Some answer"
    and rest: "emit parse ls (w\<lparr>pending_request_queue := waiting,
                 answer_queue := answer_queue w @ [(request, answer)]\<rparr>) = Inr w'"
    by (auto simp: match_one_def split: list.splits option.splits)
  from Cons.IH [OF rest] p a show ?case by simp
qed

lemma emit_Inl:
  "emit parse ls w = Inl (err, w') \<Longrightarrow>
     wire_in w' = wire_in w \<and> wire_out w' = wire_out w \<and>
     (err = IndexError \<longrightarrow> length (pending_request_queue w) < length ls) \<and>
     (err = IndexError \<or> err = ValueError)"
proof (induction ls arbitrary: w)
  case Nil
  then show ?case by simp
next
  case (Cons l ls)
  show ?case
  proof (cases "match_one parse l w")
    case (Inl raised)
    with Cons.prems show ?thesis
      by (auto simp: match_one_def split: list.splits option.splits)
  next
    case (Inr w1)
    with Cons.prems have rest: "emit parse ls w1 = Inl (err, w')" by simp
    from Inr have "wire_in w1 = wire_in w \<and> wire_out w1 = wire_out w \<and>
        Suc (length (pending_request_queue w1)) = length (pending_request_queue w)"
      by (auto simp: match_one_def split: list.splits option.splits)
    with Cons.IH [OF rest] show ?thesis by auto
  qed
qed

lemma emit_ok:
  "length ls \<le> length (pending_request_queue w) \<Longrightarrow> \<forall>l \<in> set ls. parse l \<noteq> None \<Longrightarrow>
     \<exists>w'. emit parse ls w = Inr w'"
proof (induction ls arbitrary: w)
  case Nil
  then show ?case by simp
next
  case (Cons l ls)
  then obtain request waiting answer where
    p: "pending_request_queue w = request # waiting" and a: "parse l = Some answer"
    by (cases "pending_request_queue w") auto
  let ?w1 = "w\<lparr>pending_request_queue := waiting,
                 answer_queue := answer_queue w @ [(request, answer)]\<rparr>"
  have "\<exists>w'. emit parse ls ?w1 = Inr w'"
    using Cons.prems p by (intro Cons.IH) auto
  then show ?case using p a by (simp add: match_one_def)
qed

text \<open>The transfers.\<close>

lemma io_Inr:
  "io e w = Inr w' \<Longrightarrow>
     \<exists>k. w' = w\<lparr>request_buffer := drop k (request_buffer w),
                 wire_out := wire_out w @ take k (request_buffer w),
                 response_buffer := response_buffer w @ delivery e,
                 wire_in := wire_in w @ delivery e\<rparr>"
proof -
  assume a: "io e w = Inr w'"
  show ?thesis
  proof (cases "request_buffer w \<noteq> [] \<and> writable e")
    case True
    with a obtain n where n: "on_send e = Accepts n"
      by (cases "on_send e") (auto simp: io_def do_send_def Let_def)
    from a True n show ?thesis
      by (cases "on_recv e")
         (auto simp: io_def do_send_def do_recv_def delivery_def Let_def split: if_splits
               intro!: exI [of _ "min n (length (request_buffer w))"])
  next
    case False
    with a show ?thesis
      by (cases "on_recv e")
         (auto simp: io_def do_recv_def delivery_def Let_def split: if_splits
               intro!: exI [of _ 0])
  qed
qed

lemma io_Inl:
  "io e w = Inl (err, w') \<Longrightarrow> err \<noteq> IndexError \<and> err \<noteq> ValueError"
  by (auto simp: io_def do_send_def do_recv_def Let_def
           split: if_splits send_result.splits recv_result.splits sum.splits)

lemma io_healthy:
  "healthy e \<Longrightarrow> \<exists>w'. io e w = Inr w'"
  by (auto simp: healthy_def io_def do_send_def do_recv_def Let_def min_def
           split: send_result.splits recv_result.splits)

lemma iteration_Inr:
  assumes "iteration parse e w = Inr w'"
  defines "ls \<equiv> butlast (py_split newline (response_buffer w @ delivery e))"
  shows "\<exists>k. length ls \<le> length (pending_request_queue w) \<and>
           (\<forall>l \<in> set ls. parse l \<noteq> None) \<and>
           w' = w\<lparr>request_buffer := drop k (request_buffer w),
                  wire_out := wire_out w @ take k (request_buffer w),
                  response_buffer := last (py_split newline (response_buffer w @ delivery e)),
                  wire_in := wire_in w @ delivery e,
                  pending_request_queue := drop (length ls) (pending_request_queue w),
                  answer_queue := answer_queue w
                    @ zip (take (length ls) (pending_request_queue w))
                          (map (\<lambda>l. the (parse l)) ls)\<rparr>"
proof -
  from assms(1) obtain w2 where io: "io e w = Inr w2" and pr: "parse_responses parse w2 = Inr w'"
    by (auto simp: iteration_def split: sum.splits)
  from io_Inr [OF io] obtain k where
    w2: "w2 = w\<lparr>request_buffer := drop k (request_buffer w),
                 wire_out := wire_out w @ take k (request_buffer w),
                 response_buffer := response_buffer w @ delivery e,
                 wire_in := wire_in w @ delivery e\<rparr>"
    by blast
  from pr have em: "emit parse ls (w2\<lparr>response_buffer :=
        last (py_split newline (response_buffer w @ delivery e))\<rparr>) = Inr w'"
    by (simp add: parse_responses_def take_lines_def Let_def w2 ls_def)
  from emit_Inr [OF em] show ?thesis
    by (intro exI [of _ k]) (simp add: w2)
qed

lemma butlast_py_split_append:
  "butlast (py_split sep (xs @ ys))
     = butlast (py_split sep xs) @ butlast (py_split sep (last (py_split sep xs) @ ys))"
  by (subst py_split_append) (simp add: butlast_append)

lemma last_py_split_append:
  "last (py_split sep (xs @ ys)) = last (py_split sep (last (py_split sep xs) @ ys))"
  by (subst py_split_append) simp

lemma accounted_iteration:
  assumes acc: "accounted fmt parse rs w" and it: "iteration parse e w = Inr w'"
  shows "accounted fmt parse rs w'"
proof -
  define ls where "ls = butlast (py_split newline (response_buffer w @ delivery e))"
  define n where "n = length ls"
  from iteration_Inr [OF it] obtain k where
    len: "n \<le> length (pending_request_queue w)" and
    ok: "\<forall>l \<in> set ls. parse l \<noteq> None" and
    w': "w' = w\<lparr>request_buffer := drop k (request_buffer w),
                 wire_out := wire_out w @ take k (request_buffer w),
                 response_buffer := last (py_split newline (response_buffer w @ delivery e)),
                 wire_in := wire_in w @ delivery e,
                 pending_request_queue := drop n (pending_request_queue w),
                 answer_queue := answer_queue w
                    @ zip (take n (pending_request_queue w)) (map (\<lambda>l. the (parse l)) ls)\<rparr>"
    unfolding ls_def n_def by blast
  have fsts: "map fst (zip (take n (pending_request_queue w)) (map (\<lambda>l. the (parse l)) ls))
                = take n (pending_request_queue w)"
    using len by (simp add: n_def)
  have some_the: "map (\<lambda>l. Some (the (parse l))) ls = map parse ls"
    using ok by (induction ls) auto
  have snds: "map (\<lambda>p. Some (snd p))
                 (zip (take n (pending_request_queue w)) (map (\<lambda>l. the (parse l)) ls))
                = map parse ls"
  proof -
    have "map (\<lambda>p. Some (snd p))
                 (zip (take n (pending_request_queue w)) (map (\<lambda>l. the (parse l)) ls))
          = map Some (map snd
                 (zip (take n (pending_request_queue w)) (map (\<lambda>l. the (parse l)) ls)))"
      by simp
    also have "map snd (zip (take n (pending_request_queue w)) (map (\<lambda>l. the (parse l)) ls))
            = map (\<lambda>l. the (parse l)) ls"
      using len by (simp add: n_def)
    also have "map Some (map (\<lambda>l. the (parse l)) ls) = map parse ls"
      using some_the by simp
    finally show ?thesis .
  qed
  have drawn: "map fst (answer_queue w') @ pending_request_queue w'
                 = map fst (answer_queue w) @ pending_request_queue w"
    by (simp add: w' fsts)
  have rb: "response_buffer w = last (py_split newline (wire_in w))"
    using acc by (simp add: accounted_def)
  have same: "request_iter w' = request_iter w" "more_requests w' = more_requests w"
    "wire_out w' @ request_buffer w' = wire_out w @ request_buffer w"
    by (simp_all add: w')
  have "(map fst (answer_queue w') @ pending_request_queue w') @ request_iter w' = rs"
    unfolding drawn same using acc by (simp add: accounted_def)
  then have c1: "map fst (answer_queue w') @ pending_request_queue w' @ request_iter w' = rs"
    by simp
  have c2: "more_requests w' \<or> request_iter w' = []"
    unfolding same using acc by (simp add: accounted_def)
  have c3: "wire_out w' @ request_buffer w'
              = commands fmt (map fst (answer_queue w') @ pending_request_queue w')"
    unfolding drawn same using acc by (simp add: accounted_def)
  have win: "wire_in w' = wire_in w @ delivery e"
    by (simp add: w')
  have c4: "response_buffer w' = last (py_split newline (wire_in w'))"
    unfolding win last_py_split_append [of newline "wire_in w" "delivery e"]
    by (simp add: w' rb)
  have old5: "map (\<lambda>p. Some (snd p)) (answer_queue w)
              = map parse (butlast (py_split newline (wire_in w)))"
    using acc by (simp add: accounted_def)
  have "map (\<lambda>p. Some (snd p)) (answer_queue w')
          = map (\<lambda>p. Some (snd p)) (answer_queue w) @ map parse ls"
    using snds by (simp add: w')
  also have "\<dots> = map parse (butlast (py_split newline (wire_in w)) @ ls)"
    using old5 by simp
  also have "butlast (py_split newline (wire_in w)) @ ls
               = butlast (py_split newline (wire_in w'))"
    unfolding win butlast_py_split_append [of newline "wire_in w" "delivery e"]
    by (simp add: ls_def rb)
  finally have c5: "map (\<lambda>p. Some (snd p)) (answer_queue w')
              = map parse (butlast (py_split newline (wire_in w')))" .
  show ?thesis
    unfolding accounted_def using c1 c2 c3 c4 c5 by blast
qed

text \<open>The four ways through one pass of the outer loop.\<close>

lemma worker_loop_idle:
  "\<not> (more_requests w \<or> pending_request_queue w \<noteq> []) \<Longrightarrow>
     worker_loop fmt parse es w = Returns w"
  by (cases es) auto

lemma worker_loop_drained:
  "more_requests w \<or> pending_request_queue w \<noteq> [] \<Longrightarrow>
   \<not> (more_requests (grab fmt w) \<or> pending_request_queue (grab fmt w) \<noteq> []) \<Longrightarrow>
     worker_loop fmt parse es w = Returns (grab fmt w)"
  by (cases es) (auto simp: Let_def)

lemma worker_loop_out_of_events:
  "more_requests w \<or> pending_request_queue w \<noteq> [] \<Longrightarrow>
   more_requests (grab fmt w) \<or> pending_request_queue (grab fmt w) \<noteq> [] \<Longrightarrow>
     worker_loop fmt parse [] w = Waits (grab fmt w)"
  by (auto simp: Let_def)

lemma worker_loop_pass:
  "more_requests w \<or> pending_request_queue w \<noteq> [] \<Longrightarrow>
   more_requests (grab fmt w) \<or> pending_request_queue (grab fmt w) \<noteq> [] \<Longrightarrow>
     worker_loop fmt parse (e # es) w =
       (case iteration parse e (grab fmt w) of
          Inl (err, w2) \<Rightarrow> Raises err w2
        | Inr w2 \<Rightarrow> worker_loop fmt parse es w2)"
  by (auto simp: Let_def)

declare worker_loop.simps [simp del]

lemma accounted_worker_loop:
  "accounted fmt parse rs w \<Longrightarrow>
   worker_loop fmt parse es w = Returns w' \<or> worker_loop fmt parse es w = Waits w' \<Longrightarrow>
   accounted fmt parse rs w'"
proof (induction es arbitrary: w)
  case Nil
  show ?case
  proof (cases "more_requests w \<or> pending_request_queue w \<noteq> []")
    case False
    with Nil show ?thesis by (simp add: worker_loop_idle)
  next
    case True
    then show ?thesis
      using Nil accounted_grab [OF Nil(1), of ]
      by (cases "more_requests (grab fmt w) \<or> pending_request_queue (grab fmt w) \<noteq> []")
         (auto simp: worker_loop_drained worker_loop_out_of_events)
  qed
next
  case (Cons e es)
  show ?case
  proof (cases "more_requests w \<or> pending_request_queue w \<noteq> []")
    case False
    with Cons.prems show ?thesis by (simp add: worker_loop_idle)
  next
    case True
    note busy = this
    show ?thesis
    proof (cases "more_requests (grab fmt w) \<or> pending_request_queue (grab fmt w) \<noteq> []")
      case False
      with busy Cons.prems accounted_grab [OF Cons.prems(1)] show ?thesis
        by (auto simp: worker_loop_drained)
    next
      case True
      show ?thesis
      proof (cases "iteration parse e (grab fmt w)")
        case (Inl raised)
        with busy True Cons.prems show ?thesis
          by (auto simp: worker_loop_pass split: prod.splits)
      next
        case (Inr w2)
        have "accounted fmt parse rs w2"
          using accounted_iteration [OF accounted_grab [OF Cons.prems(1)] Inr] .
        moreover have "worker_loop fmt parse (e # es) w = worker_loop fmt parse es w2"
          using busy True Inr by (simp add: worker_loop_pass)
        ultimately show ?thesis
          using Cons.IH [of w2] Cons.prems(2) by simp
      qed
    qed
  qed
qed

lemma worker_loop_Returns:
  "worker_loop fmt parse es w = Returns w' \<Longrightarrow>
     \<not> more_requests w' \<and> pending_request_queue w' = []"
proof (induction es arbitrary: w)
  case Nil
  show ?case
  proof (cases "more_requests w \<or> pending_request_queue w \<noteq> []")
    case False
    with Nil show ?thesis by (simp add: worker_loop_idle)
  next
    case True
    with Nil show ?thesis
      by (cases "more_requests (grab fmt w) \<or> pending_request_queue (grab fmt w) \<noteq> []")
         (auto simp: worker_loop_drained worker_loop_out_of_events)
  qed
next
  case (Cons e es)
  show ?case
  proof (cases "more_requests w \<or> pending_request_queue w \<noteq> []")
    case False
    with Cons.prems show ?thesis by (simp add: worker_loop_idle)
  next
    case True
    note busy = this
    show ?thesis
    proof (cases "more_requests (grab fmt w) \<or> pending_request_queue (grab fmt w) \<noteq> []")
      case False
      with busy Cons.prems show ?thesis by (auto simp: worker_loop_drained)
    next
      case True
      with busy Cons.prems Cons.IH show ?thesis
        by (cases "iteration parse e (grab fmt w)") (auto simp: worker_loop_pass split: prod.splits)
    qed
  qed
qed

lemma worker_loop_Waits:
  "worker_loop fmt parse es w = Waits w' \<Longrightarrow>
     more_requests w' \<or> pending_request_queue w' \<noteq> []"
proof (induction es arbitrary: w)
  case Nil
  show ?case
  proof (cases "more_requests w \<or> pending_request_queue w \<noteq> []")
    case False
    with Nil show ?thesis by (simp add: worker_loop_idle)
  next
    case True
    with Nil show ?thesis
      by (cases "more_requests (grab fmt w) \<or> pending_request_queue (grab fmt w) \<noteq> []")
         (auto simp: worker_loop_drained worker_loop_out_of_events)
  qed
next
  case (Cons e es)
  show ?case
  proof (cases "more_requests w \<or> pending_request_queue w \<noteq> []")
    case False
    with Cons.prems show ?thesis by (simp add: worker_loop_idle)
  next
    case True
    note busy = this
    show ?thesis
    proof (cases "more_requests (grab fmt w) \<or> pending_request_queue (grab fmt w) \<noteq> []")
      case False
      with busy Cons.prems show ?thesis by (auto simp: worker_loop_drained)
    next
      case True
      with busy Cons.prems Cons.IH show ?thesis
        by (cases "iteration parse e (grab fmt w)") (auto simp: worker_loop_pass split: prod.splits)
    qed
  qed
qed

section \<open>Lines read against commands written\<close>

lemma count_commands:
  "\<forall>r \<in> set rs. newline \<notin> set (fmt r) \<Longrightarrow> count_list (commands fmt rs) newline = length rs"
  by (induction rs) (simp_all add: commands_def)

lemma accounted_lines_read:
  "accounted fmt parse rs w \<Longrightarrow> count_list (wire_in w) newline = length (answer_queue w)"
proof -
  assume "accounted fmt parse rs w"
  then have "map (\<lambda>p. Some (snd p)) (answer_queue w)
               = map parse (butlast (py_split newline (wire_in w)))"
    by (simp add: accounted_def)
  then have "length (answer_queue w) = length (butlast (py_split newline (wire_in w)))"
    using map_eq_imp_length_eq by blast
  then show ?thesis by (simp add: length_py_split)
qed

lemma accounted_drawn_subset:
  "accounted fmt parse rs w \<Longrightarrow>
     set (map fst (answer_queue w) @ pending_request_queue w) \<subseteq> set rs"
proof -
  assume "accounted fmt parse rs w"
  then have "(map fst (answer_queue w) @ pending_request_queue w) @ request_iter w = rs"
    by (simp add: accounted_def)
  then have "set (map fst (answer_queue w) @ pending_request_queue w) \<union> set (request_iter w)
               = set rs"
    using set_append by metis
  then show ?thesis by blast
qed

lemma accounted_commands_written:
  assumes "accounted fmt parse rs w" and "\<forall>r \<in> set rs. newline \<notin> set (fmt r)"
  shows "count_list (wire_out w) newline + count_list (request_buffer w) newline
           = length (answer_queue w) + length (pending_request_queue w)"
proof -
  let ?drawn = "map fst (answer_queue w) @ pending_request_queue w"
  have "wire_out w @ request_buffer w = commands fmt ?drawn"
    using assms(1) by (simp add: accounted_def)
  then have "count_list (wire_out w @ request_buffer w) newline
               = count_list (commands fmt ?drawn) newline"
    by simp
  moreover have "\<forall>r \<in> set ?drawn. newline \<notin> set (fmt r)"
    using assms(2) accounted_drawn_subset [OF assms(1)] by blast
  ultimately show ?thesis
    using count_commands [of ?drawn fmt] by simp
qed

text \<open>
  After the transfers of a pass, a worker that has not read more lines than it has
  written commands has a pending request for every complete line in its response buffer.
\<close>

lemma enough_pending:
  assumes acc: "accounted fmt parse rs w"
      and fmt: "\<forall>r \<in> set rs. newline \<notin> set (fmt r)"
      and io: "io e w = Inr w1"
      and step: "in_step w1"
  shows "length (butlast (py_split newline (response_buffer w1)))
           \<le> length (pending_request_queue w1)"
proof -
  from io_Inr [OF io] obtain k where
    w1: "w1 = w\<lparr>request_buffer := drop k (request_buffer w),
                 wire_out := wire_out w @ take k (request_buffer w),
                 response_buffer := response_buffer w @ delivery e,
                 wire_in := wire_in w @ delivery e\<rparr>"
    by blast
  have rb: "response_buffer w = last (py_split newline (wire_in w))"
    using acc by (simp add: accounted_def)
  have "count_list (wire_in w1) newline
          = length (butlast (py_split newline (wire_in w @ delivery e)))"
    by (simp add: w1 length_py_split)
  also have "\<dots> = length (butlast (py_split newline (wire_in w)))
                  + length (butlast (py_split newline (response_buffer w @ delivery e)))"
    unfolding butlast_py_split_append [of newline "wire_in w" "delivery e"] rb by simp
  also have "\<dots> = length (answer_queue w)
                  + length (butlast (py_split newline (response_buffer w1)))"
    using accounted_lines_read [OF acc] by (simp add: length_py_split w1)
  finally have lines: "count_list (wire_in w1) newline
      = length (answer_queue w) + length (butlast (py_split newline (response_buffer w1)))" .
  have "count_list (wire_out w1) newline + count_list (request_buffer w1) newline
          = count_list (wire_out w @ (take k (request_buffer w) @ drop k (request_buffer w))) newline"
    unfolding w1 by (simp del: append_take_drop_id)
  also have "\<dots> = length (answer_queue w) + length (pending_request_queue w)"
    using accounted_commands_written [OF acc fmt] by simp
  finally have "count_list (wire_out w1) newline
      \<le> length (answer_queue w) + length (pending_request_queue w)"
    by simp
  with lines step show ?thesis
    by (simp add: in_step_def w1)
qed

text \<open>Whatever the parsing of a pass does, the traffic is that of its transfers.\<close>

lemma parse_responses_traffic:
  "parse_responses parse w = Inl (err, w') \<or> parse_responses parse w = Inr w' \<Longrightarrow>
     wire_in w' = wire_in w \<and> wire_out w' = wire_out w"
proof -
  let ?w = "w\<lparr>response_buffer := last (py_split newline (response_buffer w))\<rparr>"
  let ?ls = "butlast (py_split newline (response_buffer w))"
  assume "parse_responses parse w = Inl (err, w') \<or> parse_responses parse w = Inr w'"
  then have "emit parse ?ls ?w = Inl (err, w') \<or> emit parse ?ls ?w = Inr w'"
    by (simp add: parse_responses_def take_lines_def Let_def)
  then show ?thesis
  proof
    assume "emit parse ?ls ?w = Inl (err, w')"
    from emit_Inl [OF this] show ?thesis by simp
  next
    assume "emit parse ?ls ?w = Inr w'"
    from emit_Inr [OF this] show ?thesis by simp
  qed
qed

lemma worker_loop_traffic_unread:
  "wire_in (state_of (worker_loop fmt parse [] w)) = wire_in w \<and>
   wire_out (state_of (worker_loop fmt parse [] w)) = wire_out w"
  by (simp add: worker_loop.simps Let_def state_of_def grab_frame)

lemma in_step_after_transfers:
  assumes busy: "more_requests w \<or> pending_request_queue w \<noteq> []"
      and busy': "more_requests (grab fmt w) \<or> pending_request_queue (grab fmt w) \<noteq> []"
      and io: "io e (grab fmt w) = Inr w1"
      and step: "in_step (state_of (worker_loop fmt parse [e] w))"
  shows "in_step w1"
proof (cases "parse_responses parse w1")
  case (Inl raised)
  obtain err w2 where raised: "raised = (err, w2)" by (cases raised)
  have "worker_loop fmt parse [e] w = Raises err w2"
    using busy busy' io Inl raised by (simp add: worker_loop_pass iteration_def)
  moreover have "wire_in w2 = wire_in w1 \<and> wire_out w2 = wire_out w1"
    using parse_responses_traffic [of parse w1 err w2] Inl raised by simp
  ultimately show ?thesis
    using step by (simp add: state_of_def in_step_def)
next
  case (Inr w2)
  have "worker_loop fmt parse [e] w = worker_loop fmt parse [] w2"
    using busy busy' io Inr by (simp add: worker_loop_pass iteration_def)
  moreover have "wire_in w2 = wire_in w1 \<and> wire_out w2 = wire_out w1"
    using parse_responses_traffic [of parse w1 _ w2] Inr by simp
  ultimately show ?thesis
    using step worker_loop_traffic_unread [of fmt parse w2] by (simp add: in_step_def)
qed

lemma iteration_no_IndexError:
  assumes acc: "accounted fmt parse rs w"
      and fmt: "\<forall>r \<in> set rs. newline \<notin> set (fmt r)"
      and io: "io e w = Inr w1"
      and step: "in_step w1"
  shows "iteration parse e w \<noteq> Inl (IndexError, w')"
proof
  assume "iteration parse e w = Inl (IndexError, w')"
  then have "emit parse (butlast (py_split newline (response_buffer w1)))
               (w1\<lparr>response_buffer := last (py_split newline (response_buffer w1))\<rparr>)
             = Inl (IndexError, w')"
    using io by (simp add: iteration_def parse_responses_def take_lines_def Let_def)
  from emit_Inl [OF this]
  have "length (pending_request_queue w1) < length (butlast (py_split newline (response_buffer w1)))"
    by simp
  with enough_pending [OF acc fmt io step] show False by simp
qed

lemma prefixes_all_Cons:
  "list_all P (prefixes (e # es)) = (P [] \<and> list_all (\<lambda>p. P (e # p)) (prefixes es))"
  by (simp add: list_all_iff)

lemma prefixes_all_single: "list_all P (prefixes (e # es)) \<Longrightarrow> P [e]"
  by (cases es) (simp_all add: list_all_iff)

lemma worker_loop_no_IndexError:
  assumes fmt: "\<forall>r \<in> set rs. newline \<notin> set (fmt r)"
  shows "accounted fmt parse rs w \<Longrightarrow>
         list_all (\<lambda>p. in_step (state_of (worker_loop fmt parse p w))) (prefixes es) \<Longrightarrow>
         worker_loop fmt parse es w \<noteq> Raises IndexError w'"
proof (induction es arbitrary: w)
  case Nil
  then show ?case by (auto simp: worker_loop.simps Let_def)
next
  case (Cons e es)
  show ?case
  proof (cases "more_requests w \<or> pending_request_queue w \<noteq> []")
    case False
    then show ?thesis by (simp add: worker_loop_idle)
  next
    case True
    note busy = this
    show ?thesis
    proof (cases "more_requests (grab fmt w) \<or> pending_request_queue (grab fmt w) \<noteq> []")
      case False
      with busy show ?thesis by (simp add: worker_loop_drained)
    next
      case True
      note busy' = this
      have acc1: "accounted fmt parse rs (grab fmt w)"
        using Cons.prems(1) by (rule accounted_grab)
      have single: "in_step (state_of (worker_loop fmt parse [e] w))"
        using prefixes_all_single [OF Cons.prems(2)] .
      show ?thesis
      proof (cases "io e (grab fmt w)")
        case (Inl raised)
        obtain err w2 where raised: "raised = (err, w2)" by (cases raised)
        from Inl raised io_Inl [of e "grab fmt w" err w2] have "err \<noteq> IndexError" by simp
        then show ?thesis
          using busy busy' Inl raised by (simp add: worker_loop_pass iteration_def)
      next
        case (Inr w1)
        have step1: "in_step w1"
          using in_step_after_transfers [OF busy busy' Inr single] .
        show ?thesis
        proof (cases "iteration parse e (grab fmt w)")
          case (Inl raised)
          obtain err w2 where raised: "raised = (err, w2)" by (cases raised)
          from iteration_no_IndexError [OF acc1 fmt Inr step1] Inl raised
          have "err \<noteq> IndexError" by auto
          then show ?thesis
            using busy busy' Inl raised by (simp add: worker_loop_pass)
        next
          case (Inr w2)
          have acc2: "accounted fmt parse rs w2"
            using accounted_iteration [OF acc1 Inr] .
          have next_pass: "worker_loop fmt parse (e # p) w = worker_loop fmt parse p w2" for p
            using busy busy' Inr by (simp add: worker_loop_pass)
          have "list_all (\<lambda>p. in_step (state_of (worker_loop fmt parse p w2))) (prefixes es)"
            using Cons.prems(2) unfolding prefixes_all_Cons next_pass by simp
          from Cons.IH [OF acc2 this] show ?thesis
            by (simp add: next_pass)
        qed
      qed
    qed
  qed
qed

section \<open>A server that answers every request, in order\<close>

lemma replies_commands: "replies reply rs = commands reply rs"
  by (simp add: replies_def commands_def)

lemma py_split_commands:
  "\<forall>r \<in> set rs. newline \<notin> set (f r) \<Longrightarrow> py_split newline (commands f rs) = map f rs @ [[]]"
proof (induction rs)
  case Nil
  then show ?case by (simp add: commands_def)
next
  case (Cons r rs)
  have "commands f (r # rs) = f r @ newline # commands f rs"
    by (simp add: commands_def)
  then have "py_split newline (commands f (r # rs))
               = py_split newline (f r) @ py_split newline (commands f rs)"
    by (simp only: py_split_append_sep)
  with Cons show ?case by (simp add: py_split_plain)
qed

lemma commands_last: "rs \<noteq> [] \<Longrightarrow> last (commands f rs) = newline"
  by (induction rs) (auto simp: commands_def)

text \<open>The complete lines in a part of the replies that has been read are the first replies.\<close>

lemma lines_of_read_part:
  assumes free: "\<forall>r \<in> set rs. newline \<notin> set (reply r)"
      and part: "xs @ ys = replies reply rs"
  shows "butlast (py_split newline xs) = take (count_list xs newline) (map reply rs)"
proof -
  let ?A = "butlast (py_split newline xs)"
  let ?Z = "py_split newline (last (py_split newline xs) @ ys)"
  have "?A @ ?Z = py_split newline (xs @ ys)"
    by (rule py_split_append [symmetric])
  also have "\<dots> = map reply rs @ [[]]"
    using free part by (simp add: replies_commands py_split_commands)
  finally have eq: "?A @ ?Z = map reply rs @ [[]]" .
  have "length ?A + length ?Z = Suc (length rs)"
    using arg_cong [OF eq, of length] by simp
  moreover have "length ?Z \<ge> 1"
    by (simp add: length_py_split)
  ultimately have le: "length ?A \<le> length rs" by simp
  have "?A = take (length ?A) (?A @ ?Z)" by simp
  also have "\<dots> = take (length ?A) (map reply rs)"
    unfolding eq using le by simp
  finally show ?thesis
    by (simp add: length_py_split)
qed

lemma lines_of_read_part_parse:
  assumes free: "\<forall>r \<in> set rs. newline \<notin> set (reply r)"
      and parse: "\<forall>r \<in> set rs. parse (reply r) = Some (answer r)"
      and part: "xs @ ys = replies reply rs"
      and l: "l \<in> set (butlast (py_split newline xs))"
  shows "parse l \<noteq> None"
proof -
  from l have "l \<in> set (take (count_list xs newline) (map reply rs))"
    using lines_of_read_part [OF free part] by simp
  then have "l \<in> set (map reply rs)"
    by (rule in_set_takeD)
  then show ?thesis using parse by auto
qed

lemma grab_exhausted:
  "more_requests w \<Longrightarrow> request_iter w = [] \<Longrightarrow> length (request_buffer w) < 4096 \<Longrightarrow>
     grab fmt w = w\<lparr>more_requests := False\<rparr>"
  by (subst grab.simps) (simp add: draw_def grab_stopped)

text \<open>When every reply has been read, in step with the commands, the worker returns.\<close>

lemma all_read_returns:
  assumes acc: "accounted fmt parse rs w"
      and fmt: "\<forall>r \<in> set rs. newline \<notin> set (fmt r)"
      and free: "\<forall>r \<in> set rs. newline \<notin> set (reply r)"
      and all: "wire_in w = replies reply rs"
      and step: "in_step w"
  shows "\<exists>w'. worker_loop fmt parse es w = Returns w' \<and> wire_in w' = wire_in w"
proof -
  have "count_list (wire_in w) newline = length rs"
    using free by (simp add: all replies_commands count_commands)
  then have answered: "length (answer_queue w) = length rs"
    using accounted_lines_read [OF acc] by simp
  have "length (map fst (answer_queue w) @ pending_request_queue w @ request_iter w) = length rs"
    using acc by (simp add: accounted_def)
  with answered have none: "pending_request_queue w = []" "request_iter w = []"
    by simp_all
  have "count_list (wire_out w) newline + count_list (request_buffer w) newline = length rs"
    using accounted_commands_written [OF acc fmt] answered none by simp
  moreover have "length rs \<le> count_list (wire_out w) newline"
    using step \<open>count_list (wire_in w) newline = length rs\<close> by (simp add: in_step_def)
  ultimately have quiet: "count_list (request_buffer w) newline = 0"
    by simp
  have empty: "request_buffer w = []"
  proof (rule ccontr)
    assume ne: "request_buffer w \<noteq> []"
    let ?drawn = "map fst (answer_queue w) @ pending_request_queue w"
    have eq: "wire_out w @ request_buffer w = commands fmt ?drawn"
      using acc by (simp add: accounted_def)
    with ne have "?drawn \<noteq> []"
      by (auto simp: commands_def)
    then have "last (commands fmt ?drawn) = newline"
      by (rule commands_last)
    with eq ne have "last (request_buffer w) = newline"
      by (metis last_appendR)
    with ne have "newline \<in> set (request_buffer w)"
      by (metis last_in_set)
    with quiet show False
      by (simp add: count_list_0_iff)
  qed
  show ?thesis
  proof (cases "more_requests w")
    case False
    with none show ?thesis by (simp add: worker_loop_idle)
  next
    case True
    then have g: "grab fmt w = w\<lparr>more_requests := False\<rparr>"
      using none empty by (simp add: grab_exhausted)
    have "worker_loop fmt parse es w = Returns (grab fmt w)"
      using True by (intro worker_loop_drained) (simp_all add: g none)
    then show ?thesis by (simp add: g)
  qed
qed

lemma worker_loop_total:
  assumes fmt: "\<forall>r \<in> set rs. newline \<notin> set (fmt r)"
      and free: "\<forall>r \<in> set rs. newline \<notin> set (reply r)"
      and parse: "\<forall>r \<in> set rs. parse (reply r) = Some (answer r)"
  shows "accounted fmt parse rs w \<Longrightarrow> list_all healthy es \<Longrightarrow>
         wire_in w @ delivered es = replies reply rs \<Longrightarrow>
         list_all (\<lambda>p. in_step (state_of (worker_loop fmt parse p w))) (prefixes es) \<Longrightarrow>
         \<exists>w' rest. worker_loop fmt parse es w = Returns w' \<and>
                    wire_in w' @ rest = replies reply rs"
proof (induction es arbitrary: w)
  case Nil
  have "in_step w"
    using Nil.prems(4) worker_loop_traffic_unread [of fmt parse w] by (simp add: in_step_def)
  moreover have "wire_in w = replies reply rs"
    using Nil.prems(3) by (simp add: delivered_def)
  ultimately obtain w' where "worker_loop fmt parse [] w = Returns w'" "wire_in w' = wire_in w"
    using all_read_returns [OF Nil.prems(1) fmt free] by blast
  with \<open>wire_in w = replies reply rs\<close> show ?case
    by (intro exI [of _ w'] exI [of _ "[]"]) simp
next
  case (Cons e es)
  show ?case
  proof (cases "more_requests w \<or> pending_request_queue w \<noteq> []")
    case False
    then show ?thesis
      using Cons.prems(3)
      by (intro exI [of _ w] exI [of _ "delivered (e # es)"]) (simp add: worker_loop_idle)
  next
    case True
    note busy = this
    show ?thesis
    proof (cases "more_requests (grab fmt w) \<or> pending_request_queue (grab fmt w) \<noteq> []")
      case False
      with busy show ?thesis
        using Cons.prems(3)
        by (intro exI [of _ "grab fmt w"] exI [of _ "delivered (e # es)"])
           (simp add: worker_loop_drained grab_frame)
    next
      case True
      note busy' = this
      have acc1: "accounted fmt parse rs (grab fmt w)"
        using Cons.prems(1) by (rule accounted_grab)
      have "healthy e" using Cons.prems(2) by simp
      then obtain w1 where io: "io e (grab fmt w) = Inr w1"
        using io_healthy by blast
      have step1: "in_step w1"
        using in_step_after_transfers [OF busy busy' io prefixes_all_single [OF Cons.prems(4)]] .
      from io_Inr [OF io] obtain k where
        w1: "w1 = (grab fmt w)\<lparr>request_buffer := drop k (request_buffer (grab fmt w)),
                 wire_out := wire_out (grab fmt w) @ take k (request_buffer (grab fmt w)),
                 response_buffer := response_buffer (grab fmt w) @ delivery e,
                 wire_in := wire_in (grab fmt w) @ delivery e\<rparr>"
        by blast
      have win1: "wire_in w1 = wire_in w @ delivery e"
        by (simp add: w1 grab_frame)
      have part: "wire_in w1 @ delivered es = replies reply rs"
        using Cons.prems(3) by (simp add: win1 delivered_def)
      let ?ls = "butlast (py_split newline (response_buffer w1))"
      have rb: "response_buffer (grab fmt w) = last (py_split newline (wire_in (grab fmt w)))"
        using acc1 by (simp add: accounted_def)
      have "butlast (py_split newline (wire_in w1))
              = butlast (py_split newline (wire_in (grab fmt w))) @ ?ls"
        unfolding w1 by (simp add: butlast_py_split_append [of newline "wire_in (grab fmt w)"] rb)
      then have "set ?ls \<subseteq> set (butlast (py_split newline (wire_in w1)))"
        by simp
      then have ok: "\<forall>l \<in> set ?ls. parse l \<noteq> None"
        using lines_of_read_part_parse [OF free parse part] by blast
      have "length ?ls \<le> length (pending_request_queue w1)"
        using enough_pending [OF acc1 fmt io step1] .
      then have "\<exists>w2. emit parse ?ls
                  (w1\<lparr>response_buffer := last (py_split newline (response_buffer w1))\<rparr>) = Inr w2"
        using ok by (intro emit_ok) simp_all
      then obtain w2 where it: "iteration parse e (grab fmt w) = Inr w2"
        using io by (auto simp: iteration_def parse_responses_def take_lines_def Let_def)
      have acc2: "accounted fmt parse rs w2"
        using accounted_iteration [OF acc1 it] .
      have "parse_responses parse w1 = Inr w2"
        using it io by (simp add: iteration_def)
      then have win2: "wire_in w2 = wire_in w1"
        using parse_responses_traffic [of parse w1 _ w2] by simp
      have next_pass: "worker_loop fmt parse (e # p) w = worker_loop fmt parse p w2" for p
        using busy busy' it by (simp add: worker_loop_pass)
      have "list_all (\<lambda>p. in_step (state_of (worker_loop fmt parse p w2))) (prefixes es)"
        using Cons.prems(4) unfolding prefixes_all_Cons next_pass by simp
      moreover have "list_all healthy es" using Cons.prems(2) by simp
      moreover have "wire_in w2 @ delivered es = replies reply rs"
        using part win2 by simp
      ultimately show ?thesis
        using Cons.IH [OF acc2] by (simp add: next_pass)
    qed
  qed
qed

text \<open>What a worker that returns has put on the answer queue.\<close>

lemma returned_answers:
  assumes free: "\<forall>r \<in> set rs. newline \<notin> set (reply r)"
      and parse: "\<forall>r \<in> set rs. parse (reply r) = Some (answer r)"
      and acc: "accounted fmt parse rs w"
      and fin: "\<not> more_requests w" "pending_request_queue w = []"
      and part: "wire_in w @ rest = replies reply rs"
  shows "answer_queue w = map (\<lambda>r. (r, answer r)) rs"
proof -
  have "request_iter w = []"
    using acc fin by (simp add: accounted_def)
  then have fsts: "map fst (answer_queue w) = rs"
    using acc fin by (simp add: accounted_def)
  then have len: "length (answer_queue w) = length rs"
    using length_map by metis
  have "map (\<lambda>p. Some (snd p)) (answer_queue w)
          = map parse (butlast (py_split newline (wire_in w)))"
    using acc by (simp add: accounted_def)
  also have "butlast (py_split newline (wire_in w))
               = take (count_list (wire_in w) newline) (map reply rs)"
    using lines_of_read_part [OF free part] .
  also have "count_list (wire_in w) newline = length rs"
    using accounted_lines_read [OF acc] len by simp
  finally have "map (\<lambda>p. Some (snd p)) (answer_queue w) = map (\<lambda>r. parse (reply r)) rs"
    by (simp add: o_def)
  also have "\<dots> = map (\<lambda>r. Some (answer r)) rs"
    using parse by (intro map_cong) auto
  finally have "map Some (map snd (answer_queue w)) = map Some (map answer rs)"
    by (simp add: o_def)
  then have snds: "map snd (answer_queue w) = map answer rs"
    by (metis inj_Some inj_map_eq_map)
  have "answer_queue w = zip (map fst (answer_queue w)) (map snd (answer_queue w))"
    by (simp add: zip_map_fst_snd)
  also have "\<dots> = zip rs (map answer rs)"
    unfolding fsts snds ..
  also have "\<dots> = map (\<lambda>r. (r, answer r)) rs"
    by (induction rs) simp_all
  finally show ?thesis .
qed

lemma worker_fn_total:
  assumes fmt: "\<forall>r \<in> set rs. newline \<notin> set (fmt r)"
      and free: "\<forall>r \<in> set rs. newline \<notin> set (reply r)"
      and parse: "\<forall>r \<in> set rs. parse (reply r) = Some (answer r)"
      and healthy: "list_all healthy es"
      and all: "delivered es = replies reply rs"
      and causal: "causal fmt parse es rs"
  shows "\<exists>w'. worker_fn fmt parse es rs [] = Returns w' \<and>
              answer_queue w' = map (\<lambda>r. (r, answer r)) rs"
proof -
  have acc: "accounted fmt parse rs (start rs [])"
    by (rule accounted_start)
  have "wire_in (start rs ([] :: ('a \<times> 'b) list)) @ delivered es = replies reply rs"
    using all by (simp add: start_def)
  moreover have "list_all (\<lambda>p. in_step (state_of (worker_loop fmt parse p (start rs []))))
                   (prefixes es)"
    using causal by (simp add: causal_def worker_fn_def)
  ultimately obtain w' rest where
    ret: "worker_loop fmt parse es (start rs []) = Returns w'" and
    part: "wire_in w' @ rest = replies reply rs"
    using worker_loop_total [OF fmt free parse acc healthy] by blast
  have acc': "accounted fmt parse rs w'"
    using accounted_worker_loop [OF acc] ret by blast
  have "\<not> more_requests w' \<and> pending_request_queue w' = []"
    using worker_loop_Returns [OF ret] .
  then have "answer_queue w' = map (\<lambda>r. (r, answer r)) rs"
    using returned_answers [OF free parse acc' _ _ part] by blast
  with ret show ?thesis
    by (simp add: worker_fn_def)
qed

section \<open>The commands of the adapters\<close>

lemma digit_char_not:
  "k < 10 \<Longrightarrow> c \<in> {newline, CHR '','', CHR ''-''} \<Longrightarrow> ''0123456789'' ! k \<noteq> c"
proof
  assume k: "k < 10" and c: "c \<in> {newline, CHR '','', CHR ''-''}" and eq: "''0123456789'' ! k = c"
  from k have "''0123456789'' ! k \<in> set ''0123456789''"
    by (intro nth_mem) simp
  with eq c show False by auto
qed

lemma digits_chars: "c \<in> {newline, CHR '','', CHR ''-''} \<Longrightarrow> c \<notin> set (digits n)"
proof (induction n rule: digits.induct)
  case (1 n)
  show ?case
  proof (cases "n < 10")
    case True
    then show ?thesis using digit_char_not [of n c] "1.prems" by (subst digits.simps) auto
  next
    case False
    then have "n mod 10 < 10" by simp
    then have "''0123456789'' ! (n mod 10) \<noteq> c" using digit_char_not "1.prems" by blast
    with False "1.IH" "1.prems" show ?thesis by (subst digits.simps) auto
  qed
qed

lemma percent_d_no_newline: "newline \<notin> set (percent_d i)"
  using digits_chars [of newline] by (simp add: percent_d_def)

lemma getBlockWithData_no_newline: "newline \<notin> set (getBlockWithData v)"
  by (cases v) (simp add: percent_d_no_newline)

lemma getHeight_no_newline: "newline \<notin> set (getHeight p)"
  by (cases p) (simp add: percent_d_no_newline)

section \<open>The scenario\<close>

lemmas run_defs = worker_fn_def start_def worker_loop.simps grab.simps draw_def iteration_def
  io_def do_send_def do_recv_def parse_responses_def take_lines_def match_one_def Let_def

lemmas scenario_defs = scenario_requests_def scenario_reply_def scenario_answer_def
  scenario_events_def percent_d_def digits.simps int_tuple_def py_int_def digit_value_def

lemma scenario_free: "\<forall>r \<in> set scenario_requests. newline \<notin> set (scenario_reply r)"
  by (simp add: scenario_defs)

lemma scenario_parse:
  "\<forall>r \<in> set scenario_requests. int_tuple (scenario_reply r) = Some (scenario_answer r)"
  by (simp add: scenario_defs)

lemma scenario_healthy: "list_all healthy scenario_events"
  by (simp add: scenario_events_def healthy_def)

lemma scenario_delivered: "delivered scenario_events = replies scenario_reply scenario_requests"
  by (simp add: scenario_defs delivered_def delivery_def replies_def)

lemma scenario_causal: "causal getBlockWithData int_tuple scenario_events scenario_requests"
  by (simp add: causal_def scenario_defs run_defs state_of_def in_step_def)

section \<open>The order of the answers on one connection\<close>

lemma inline_total:
  assumes fmt: "\<forall>r \<in> set (items requests). newline \<notin> set (fmt r)"
      and free: "\<forall>r \<in> set (items requests). newline \<notin> set (reply r)"
      and parse: "\<forall>r \<in> set (items requests). parse (reply r) = Some (answer r)"
      and healthy: "list_all healthy (conn_events en)"
      and all: "delivered (conn_events en) = replies reply (items requests)"
      and causal: "causal fmt parse (conn_events en) (items requests)"
  shows "consume en (fst (query_blocks requests fmt parse 0 wd)) wd
           = (Gives (map (\<lambda>r. (r, answer r)) (items requests)),
              after wd (inline fmt parse requests en))"
proof -
  from worker_fn_total [OF fmt free parse healthy all causal] obtain w' where
    "worker_fn fmt parse (conn_events en) (items requests) [] = Returns w'"
    "answer_queue w' = map (\<lambda>r. (r, answer r)) (items requests)"
    by blast
  then show ?thesis
    by (cases "items requests")
       (simp_all add: consume_def query_blocks_def body_def inline_def Let_def)
qed

text \<open>
  C3. \<^verbatim>\<open>thread_count == 0\<close>, and the server answers every request in order: no
  command holds a line terminator, the replies are one line each and parse, no transfer
  on the caller's socket fails, the reads return the replies to the requests, in order,
  and no reply is read before its command is written. Then the generator yields, for the
  requests \<open>rs\<close> of the iterable, exactly the pairs of each request with its answer, in
  the order of \<open>rs\<close>.
\<close>

theorem query_blocks_inline_in_order:
  assumes fmt: "\<forall>r \<in> set (items requests). newline \<notin> set (fmt r)"
      and free: "\<forall>r \<in> set (items requests). newline \<notin> set (reply r)"
      and parse: "\<forall>r \<in> set (items requests). parse (reply r) = Some (answer r)"
      and healthy: "list_all healthy (conn_events en)"
      and all: "delivered (conn_events en) = replies reply (items requests)"
      and causal: "causal fmt parse (conn_events en) (items requests)"
  shows "fst (consume en (fst (query_blocks requests fmt parse 0 wd)) wd)
           = Gives (map (\<lambda>r. (r, answer r)) (items requests))"
  using inline_total [OF fmt free parse healthy all causal] by simp

theorem query_blocks_inline_in_order_witness:
  "fst (consume scenario_env
          (fst (query_blocks (Sequence scenario_requests) getBlockWithData int_tuple 0 untouched))
          untouched)
     = Gives [(Vector 0 0 0, [1, 0]), (Vector 1 0 0, [2, 0]), (Vector 2 0 0, [3, 0])]"
proof -
  have "fst (consume scenario_env
          (fst (query_blocks (Sequence scenario_requests) getBlockWithData int_tuple 0 untouched))
          untouched)
     = Gives (map (\<lambda>r. (r, scenario_answer r)) (items (Sequence scenario_requests)))"
    by (rule query_blocks_inline_in_order [where reply = scenario_reply])
       (simp_all add: items_def scenario_env_def getBlockWithData_no_newline scenario_free
          scenario_parse scenario_healthy scenario_delivered scenario_causal)
  then show ?thesis
    by (simp add: items_def scenario_requests_def scenario_answer_def)
qed

section \<open>When the worker leaves its loop\<close>

text \<open>
  C7. A worker that finds, at the test of its loop, no more requests and an empty pending
  queue returns at once; a worker that returns has no more requests and an empty pending
  queue; a worker that has either after its inner loop does not return in that pass (with
  no further event it stays in the loop), and a worker still in its loop has either. When
  the server answers every request (as in C3), the worker returns.
\<close>

theorem worker_loop_ends:
  assumes fmt: "\<forall>r \<in> set rs. newline \<notin> set (fmt r)"
      and free: "\<forall>r \<in> set rs. newline \<notin> set (reply r)"
      and parse: "\<forall>r \<in> set rs. parse (reply r) = Some (answer r)"
      and healthy: "list_all healthy es"
      and all: "delivered es = replies reply rs"
      and causal: "causal fmt parse es rs"
  shows "(\<exists>w'. worker_fn fmt parse es rs [] = Returns w') \<and>
         (\<forall>es' w. \<not> more_requests w \<and> pending_request_queue w = [] \<longrightarrow>
              worker_loop fmt parse es' w = Returns w) \<and>
         (\<forall>es' w w'. worker_loop fmt parse es' w = Returns w' \<longrightarrow>
              \<not> more_requests w' \<and> pending_request_queue w' = []) \<and>
         (\<forall>w. (more_requests w \<or> pending_request_queue w \<noteq> []) \<and>
              (more_requests (grab fmt w) \<or> pending_request_queue (grab fmt w) \<noteq> []) \<longrightarrow>
              worker_loop fmt parse [] w = Waits (grab fmt w)) \<and>
         (\<forall>es' w w'. worker_loop fmt parse es' w = Waits w' \<longrightarrow>
              more_requests w' \<or> pending_request_queue w' \<noteq> [])"
proof -
  have "\<exists>w'. worker_fn fmt parse es rs [] = Returns w'"
    using worker_fn_total [OF fmt free parse healthy all causal] by blast
  moreover have "\<forall>es' w. \<not> more_requests w \<and> pending_request_queue w = [] \<longrightarrow>
      worker_loop fmt parse es' w = Returns w"
    by (simp add: worker_loop_idle)
  moreover have "\<forall>es' w w'. worker_loop fmt parse es' w = Returns w' \<longrightarrow>
      \<not> more_requests w' \<and> pending_request_queue w' = []"
    using worker_loop_Returns by blast
  moreover have "\<forall>w. (more_requests w \<or> pending_request_queue w \<noteq> []) \<and>
      (more_requests (grab fmt w) \<or> pending_request_queue (grab fmt w) \<noteq> []) \<longrightarrow>
      worker_loop fmt parse [] w = Waits (grab fmt w)"
    using worker_loop_out_of_events by blast
  moreover have "\<forall>es' w w'. worker_loop fmt parse es' w = Waits w' \<longrightarrow>
      more_requests w' \<or> pending_request_queue w' \<noteq> []"
    using worker_loop_Waits by blast
  ultimately show ?thesis by blast
qed

theorem worker_loop_ends_witness:
  "\<exists>w'. worker_fn getBlockWithData int_tuple scenario_events scenario_requests [] = Returns w'"
  using worker_loop_ends [where reply = scenario_reply and answer = scenario_answer,
      OF _ scenario_free scenario_parse scenario_healthy scenario_delivered scenario_causal]
  by (simp add: getBlockWithData_no_newline)

section \<open>The pop of the pending queue\<close>

text \<open>
  C10. When at no moment the worker has read more complete lines than it has written
  complete commands, no pass of the worker raises \<^verbatim>\<open>IndexError\<close>: every complete line
  finds a request in the pending queue. A line that is matched while the pending queue is
  empty raises \<^verbatim>\<open>IndexError\<close>.
\<close>

theorem popleft_finds_a_request:
  assumes fmt: "\<forall>r \<in> set rs. newline \<notin> set (fmt r)"
      and causal: "causal fmt parse es rs"
  shows "(\<forall>w. worker_fn fmt parse es rs [] \<noteq> Raises IndexError w) \<and>
         match_one parse line (w0\<lparr>pending_request_queue := []\<rparr>)
           = Inl (IndexError, w0\<lparr>pending_request_queue := []\<rparr>)"
proof -
  have "list_all (\<lambda>p. in_step (state_of (worker_loop fmt parse p (start rs [])))) (prefixes es)"
    using causal by (simp add: causal_def worker_fn_def)
  then have "\<forall>w. worker_loop fmt parse es (start rs []) \<noteq> Raises IndexError w"
    using worker_loop_no_IndexError [OF fmt accounted_start] by blast
  then show ?thesis
    by (simp add: worker_fn_def match_one_def)
qed

theorem popleft_finds_a_request_witness:
  "causal getBlockWithData int_tuple scenario_events scenario_requests \<and>
   (\<forall>w. worker_fn getBlockWithData int_tuple scenario_events scenario_requests []
          \<noteq> Raises IndexError w) \<and>
   match_one int_tuple ''1,0'' ((start [] [] :: (vector, int list) worker)\<lparr>pending_request_queue := []\<rparr>)
     = Inl (IndexError, (start [] [])\<lparr>pending_request_queue := []\<rparr>)"
  using popleft_finds_a_request [OF _ scenario_causal, of "''1,0''" "start [] []"] scenario_causal
  by (simp add: getBlockWithData_no_newline)

section \<open>Runs with threads\<close>

lemmas thread_defs = spawn_def run_schedule_def run_thread_def ended_def
  draw_def io_def do_send_def do_recv_def take_lines_def match_one_def Let_def start_def
  percent_d_def digits.simps int_tuple_def py_int_def digit_value_def

text \<open>
  Which iterators the threads get: for a sequence one for each thread, for an iterator
  the same one for all.
\<close>

lemma spawn_sequence:
  "iterators (spawn (Sequence xs) socks) = replicate (length socks) xs \<and>
   map iter_ref (threads (spawn (Sequence xs) socks)) = [0..<length socks]"
  by (simp add: spawn_def map_idI)

lemma spawn_iterator:
  "iterators (spawn (Iterator xs) socks) = [xs] \<and>
   map iter_ref (threads (spawn (Iterator xs) socks)) = replicate (length socks) 0"
  by (simp add: spawn_def o_def map_replicate_const)

lemma upt_0_2: "[0..<2] = [0, 1]"
  by (simp add: numeral_2_eq_2)

lemma two_threads_sockets:
  "connect_all (peers two_threads) [0..<2] []
     = (True, [\<lparr>peer_of = answering, connected = True, shut_down = False, closed = False\<rparr>,
               \<lparr>peer_of = answering, connected = True, shut_down = False, closed = False\<rparr>])"
  by (simp add: upt_0_2 two_threads_def answering_def)

lemma two_threads_ended:
  "list_all ended (threads (run_schedule getBlockWithData int_tuple (schedule two_threads)
     (spawn (Sequence [Vector 0 0 0])
        [\<lparr>peer_of = answering, connected = True, shut_down = False, closed = False\<rparr>,
         \<lparr>peer_of = answering, connected = True, shut_down = False, closed = False\<rparr>])))"
  by (simp add: two_threads_def answering_def thread_defs)

lemma two_threads_queue:
  "queue (run_schedule getBlockWithData int_tuple (schedule two_threads)
     (spawn (Sequence [Vector 0 0 0])
        [\<lparr>peer_of = answering, connected = True, shut_down = False, closed = False\<rparr>,
         \<lparr>peer_of = answering, connected = True, shut_down = False, closed = False\<rparr>]))
   = [(Vector 0 0 0, [1, 0]), (Vector 0 0 0, [1, 0])]"
  by (simp add: two_threads_def answering_def thread_defs)

lemma two_threads_shared_ended:
  "list_all ended (threads (run_schedule getBlockWithData int_tuple (schedule two_threads)
     (spawn (Iterator [Vector 0 0 0])
        [\<lparr>peer_of = answering, connected = True, shut_down = False, closed = False\<rparr>,
         \<lparr>peer_of = answering, connected = True, shut_down = False, closed = False\<rparr>])))"
  by (simp add: two_threads_def answering_def thread_defs)

lemma two_threads_shared_queue:
  "queue (run_schedule getBlockWithData int_tuple (schedule two_threads)
     (spawn (Iterator [Vector 0 0 0])
        [\<lparr>peer_of = answering, connected = True, shut_down = False, closed = False\<rparr>,
         \<lparr>peer_of = answering, connected = True, shut_down = False, closed = False\<rparr>]))
   = [(Vector 0 0 0, [1, 0])]"
  by (simp add: two_threads_def answering_def thread_defs)

text \<open>
  With an iterator as \<^verbatim>\<open>requests\<close> the two threads share it, and the request is
  answered once.
\<close>

lemma two_threads_one_iterator:
  "fst (consume two_threads
          (fst (query_blocks (Iterator [Vector 0 0 0]) getBlockWithData int_tuple 2 untouched))
          untouched)
     = Gives [(Vector 0 0 0, [1, 0])]"
  by (simp add: consume_def query_blocks_def body_def threaded_def Let_def
        two_threads_sockets two_threads_shared_ended two_threads_shared_queue)

text \<open>
  C1. \<^verbatim>\<open>requests\<close> is a list of one request and \<^verbatim>\<open>thread_count\<close> is 2. Each thread gets
  its own \<^verbatim>\<open>iter(requests)\<close>, so the lock guards two iterators that nothing shares:
  both threads send the request, and the generator yields its pair twice.
\<close>

theorem two_threads_answer_a_list_twice:
  "fst (consume two_threads
          (fst (query_blocks (Sequence [Vector 0 0 0]) getBlockWithData int_tuple 2 untouched))
          untouched)
     = Gives [(Vector 0 0 0, [1, 0]), (Vector 0 0 0, [1, 0])]"
  by (simp add: consume_def query_blocks_def body_def threaded_def Let_def
        two_threads_sockets two_threads_ended two_threads_queue)

section \<open>A worker that fails\<close>

text \<open>With \<^verbatim>\<open>thread_count == 0\<close> an exception of the worker leaves the generator.\<close>

lemma inline_failure_surfaces:
  "worker_fn fmt parse (conn_events en) (items requests) [] = Raises err w \<Longrightarrow>
     fst (consume en (fst (query_blocks requests fmt parse 0 wd)) wd) = Fails err"
  by (simp add: consume_def query_blocks_def body_def inline_def Let_def)

lemma one_thread_sockets:
  "connect_all (peers one_thread) [0..<1] []
     = (True, [\<lparr>peer_of = breaking, connected = True, shut_down = False, closed = False\<rparr>])"
  by (simp add: one_thread_def breaking_def)

lemma one_thread_ended:
  "list_all ended (threads (run_schedule getBlockWithData int_tuple (schedule one_thread)
     (spawn (Sequence [Vector 0 0 0, Vector 1 0 0])
        [\<lparr>peer_of = breaking, connected = True, shut_down = False, closed = False\<rparr>])))"
  by (simp add: one_thread_def breaking_def thread_defs)

lemma one_thread_places:
  "map place_of (threads (run_schedule getBlockWithData int_tuple (schedule one_thread)
     (spawn (Sequence [Vector 0 0 0, Vector 1 0 0])
        [\<lparr>peer_of = breaking, connected = True, shut_down = False, closed = False\<rparr>])))
   = [Died SocketError]"
  by (simp add: one_thread_def breaking_def thread_defs)

lemma one_thread_queue:
  "queue (run_schedule getBlockWithData int_tuple (schedule one_thread)
     (spawn (Sequence [Vector 0 0 0, Vector 1 0 0])
        [\<lparr>peer_of = breaking, connected = True, shut_down = False, closed = False\<rparr>]))
   = [(Vector 0 0 0, [1, 0])]"
  by (simp add: one_thread_def breaking_def thread_defs)

lemma one_thread_inline:
  "\<exists>w. worker_fn getBlockWithData int_tuple (conn_events one_thread)
         [Vector 0 0 0, Vector 1 0 0] [] = Raises SocketError w"
  by (simp add: one_thread_def breaking_def run_defs scenario_defs)

lemma one_thread_run:
  "threaded getBlockWithData int_tuple 1 (Sequence [Vector 0 0 0, Vector 1 0 0]) one_thread
     = \<lparr>result = Gives [(Vector 0 0 0, [1, 0])], written = [],
        sockets = [\<lparr>peer_of = breaking, connected = True, shut_down = False, closed = False\<rparr>],
        started = 1, iter_calls = 1\<rparr>"
  unfolding threaded_def one_thread_sockets
  by (simp add: Let_def one_thread_ended one_thread_queue release_def) (simp add: breaking_def)

lemma one_thread_run_Suc:
  "threaded getBlockWithData int_tuple (Suc 0) (Sequence [Vector 0 0 0, Vector 1 0 0]) one_thread
     = \<lparr>result = Gives [(Vector 0 0 0, [1, 0])], written = [],
        sockets = [\<lparr>peer_of = breaking, connected = True, shut_down = False, closed = False\<rparr>],
        started = 1, iter_calls = 1\<rparr>"
  using one_thread_run by simp

text \<open>
  C2. Two requests, and a peer that answers the first and then resets the connection.
  With \<^verbatim>\<open>thread_count == 1\<close> the \<^verbatim>\<open>socket.error\<close> of \<^verbatim>\<open>recv\<close> ends the worker's thread
  only: the join returns, and the generator yields the one pair that was matched and
  raises nothing. With \<^verbatim>\<open>thread_count == 0\<close> the same events make the generator raise.
\<close>

theorem thread_failure_yields_partial_result:
  "fst (consume one_thread
          (fst (query_blocks (Sequence [Vector 0 0 0, Vector 1 0 0])
                  getBlockWithData int_tuple 1 untouched))
          untouched)
     = Gives [(Vector 0 0 0, [1, 0])] \<and>
   fst (consume one_thread
          (fst (query_blocks (Sequence [Vector 0 0 0, Vector 1 0 0])
                  getBlockWithData int_tuple 0 untouched))
          untouched)
     = Fails SocketError"
proof
  show "fst (consume one_thread
          (fst (query_blocks (Sequence [Vector 0 0 0, Vector 1 0 0])
                  getBlockWithData int_tuple 1 untouched))
          untouched)
     = Gives [(Vector 0 0 0, [1, 0])]"
    by (simp add: consume_def query_blocks_def body_def one_thread_run_Suc Let_def)
next
  obtain w where "worker_fn getBlockWithData int_tuple (conn_events one_thread)
      (items (Sequence [Vector 0 0 0, Vector 1 0 0])) [] = Raises SocketError w"
    using one_thread_inline by (auto simp: items_def)
  then show "fst (consume one_thread
          (fst (query_blocks (Sequence [Vector 0 0 0, Vector 1 0 0])
                  getBlockWithData int_tuple 0 untouched))
          untouched)
     = Fails SocketError"
    by (rule inline_failure_surfaces)
qed

section \<open>Releasing the sockets\<close>

lemma release_closed:
  "closed (release s) = (closed s \<or> \<not> shutdown_raises (peer_of s) \<and> \<not> close_raises (peer_of s))"
  by (simp add: release_def)

lemma connect_all_peers:
  "connect_all ps is socks = (ok, socks') \<Longrightarrow>
     \<forall>s \<in> set socks. \<exists>i. peer_of s = ps i \<Longrightarrow>
     \<forall>s \<in> set socks'. \<exists>i. peer_of s = ps i"
proof (induction "is" arbitrary: socks)
  case Nil
  then show ?case by simp
next
  case (Cons i rest)
  show ?case
  proof (cases "connects (ps i)")
    case True
    with Cons.prems(1) have
      "connect_all ps rest (socks @ [\<lparr>peer_of = ps i, connected = True, shut_down = False,
          closed = False\<rparr>]) = (ok, socks')"
      by (simp add: Let_def)
    from Cons.IH [OF this] Cons.prems(2) show ?thesis by fastforce
  next
    case False
    with Cons.prems show ?thesis by (fastforce simp: Let_def)
  qed
qed

text \<open>
  When no \<^verbatim>\<open>shutdown\<close> and no \<^verbatim>\<open>close\<close> raises, every socket of a run that has left the
  \<^verbatim>\<open>try\<close> statement is shut down and closed.
\<close>

lemma threaded_releases:
  assumes quiet: "\<forall>i. \<not> shutdown_raises (peers en i) \<and> \<not> close_raises (peers en i)"
      and left: "result (threaded fmt parse thread_count requests en) \<noteq> NoReturn"
      and s: "s \<in> set (sockets (threaded fmt parse thread_count requests en))"
  shows "shut_down s \<and> closed s"
proof -
  obtain ok socks where c: "connect_all (peers en) [0..<thread_count] [] = (ok, socks)"
    by (cases "connect_all (peers en) [0..<thread_count] []")
  have known: "\<forall>s \<in> set socks. \<exists>i. peer_of s = peers en i"
    using connect_all_peers [OF c] by simp
  have "sockets (threaded fmt parse thread_count requests en) = map release socks"
    using c left by (cases ok) (auto simp: threaded_def Let_def split: if_splits)
  with s obtain s0 where "s0 \<in> set socks" "s = release s0" by auto
  with known quiet show ?thesis by (auto simp: release_def)
qed

text \<open>
  C4. One thread, and the peer that resets the connection, so that \<^verbatim>\<open>shutdown\<close> raises
  \<^verbatim>\<open>socket.error\<close>: the \<^verbatim>\<open>except\<close> clause passes, and \<^verbatim>\<open>close\<close>, which stands after
  \<^verbatim>\<open>shutdown\<close> in the same \<^verbatim>\<open>try\<close>, is not reached. After the run the socket that was
  opened and connected is neither shut down nor closed.
\<close>

theorem failed_shutdown_skips_close:
  "opened (snd (consume one_thread
          (fst (query_blocks (Sequence [Vector 0 0 0, Vector 1 0 0])
                  getBlockWithData int_tuple 1 untouched))
          untouched))
     = [\<lparr>peer_of = breaking, connected = True, shut_down = False, closed = False\<rparr>]"
  by (simp add: consume_def query_blocks_def body_def one_thread_run_Suc Let_def after_def
        untouched_def)

section \<open>The generator\<close>

text \<open>
  C9. The call of \<^verbatim>\<open>query_blocks\<close> returns a generator and leaves the world as it was:
  nothing is written, no socket is opened, no thread is started. The first \<^verbatim>\<open>next\<close>
  runs the whole body, with all its effects; a later \<^verbatim>\<open>next\<close> has no effect on the
  world.
\<close>

theorem query_blocks_call_does_nothing:
  "snd (query_blocks requests fmt parse_fn thread_count wd) = wd \<and>
   snd (snd (gen_next en (fst (query_blocks requests fmt parse_fn thread_count wd)) wd))
     = after wd (body fmt parse_fn thread_count requests en) \<and>
   snd (snd (gen_next en (Suspended pairs) wd')) = wd' \<and>
   snd (snd (gen_next en Closed wd')) = wd'"
proof -
  have "snd (snd (gen_next en (Created fmt parse_fn thread_count requests) wd))
          = after wd (body fmt parse_fn thread_count requests en)"
    by (simp add: Let_def split: result.splits list.splits)
  moreover have "snd (snd (gen_next en (Suspended pairs) wd')) = wd'"
    by (cases pairs) simp_all
  ultimately show ?thesis
    by (simp add: query_blocks_def)
qed

section \<open>The adapters\<close>

lemma fold_update_keys:
  "fold (\<lambda>(pos, data) d. d(pos \<mapsto> data)) (map (\<lambda>r. (r, f r)) xs) m
     = (\<lambda>k. if k \<in> set xs then Some (f k) else m k)"
  by (induction xs arbitrary: m) (auto simp: fun_eq_iff)

lemma dict_of_answers:
  "dict_of (map (\<lambda>r. (r, f r)) xs) = (\<lambda>k. if k \<in> set xs then Some (f k) else None)"
  by (simp add: dict_of_def fold_update_keys)

lemma blocks_of_known:
  "\<forall>v \<in> set vs. ans v = Some (f v) \<Longrightarrow> blocks_of ans vs = Gives (map (\<lambda>v. Block (f v)) vs)"
  by (induction vs) simp_all

lemma after_iterations: "iterations (after wd r) = iterations wd + iter_calls r"
  by (simp add: after_def)

lemma getblock_total:
  assumes free: "\<forall>v \<in> set vrange. newline \<notin> set (reply v)"
      and parse: "\<forall>v \<in> set vrange. int_tuple (reply v) = Some (data v)"
      and healthy: "list_all healthy (conn_events en)"
      and all: "delivered (conn_events en) = replies reply vrange"
      and causal: "causal getBlockWithData int_tuple (conn_events en) vrange"
  shows "fst (alt_picraft_getblock_vrange en vrange wd) = Gives (map (\<lambda>v. Block (data v)) vrange) \<and>
         fst (snd (alt_picraft_getblock_vrange en vrange wd)) = 2"
proof -
  have "consume en (fst (query_blocks (Sequence vrange) getBlockWithData int_tuple 0 wd)) wd
          = (Gives (map (\<lambda>r. (r, data r)) (items (Sequence vrange))),
             after wd (inline getBlockWithData int_tuple (Sequence vrange) en))"
    by (rule inline_total [where reply = reply])
       (simp_all add: items_def getBlockWithData_no_newline free parse healthy all causal)
  moreover have "blocks_of (dict_of (map (\<lambda>r. (r, data r)) vrange)) vrange
                   = Gives (map (\<lambda>v. Block (data v)) vrange)"
    by (rule blocks_of_known) (simp add: dict_of_answers)
  ultimately show ?thesis
    by (simp add: alt_picraft_getblock_vrange_def query_blocks_def items_def after_iterations
          inline_def Let_def)
qed

lemma getheight_total:
  assumes free: "\<forall>v \<in> set vrange. newline \<notin> set (reply (case v of Vector x y z \<Rightarrow> (x, z)))"
      and parse: "\<forall>v \<in> set vrange.
                    py_int (reply (case v of Vector x y z \<Rightarrow> (x, z)))
                      = Some (height (case v of Vector x y z \<Rightarrow> (x, z)))"
      and healthy: "list_all healthy (conn_events en)"
      and all: "delivered (conn_events en)
                  = replies reply (map (\<lambda>v. case v of Vector x y z \<Rightarrow> (x, z)) vrange)"
      and causal: "causal getHeight py_int (conn_events en)
                     (map (\<lambda>v. case v of Vector x y z \<Rightarrow> (x, z)) vrange)"
  shows "fst (alt_picraft_getheight_vrange en vrange wd)
           = Gives (map (\<lambda>v. case v of Vector x y z \<Rightarrow> Vector x (height (x, z)) z) vrange) \<and>
         fst (snd (alt_picraft_getheight_vrange en vrange wd)) = 1"
proof -
  let ?xz = "\<lambda>v. case v of Vector x y z \<Rightarrow> (x, z)"
  have "consume en (fst (query_blocks (Iterator (map ?xz vrange)) getHeight py_int 0 wd)) wd
          = (Gives (map (\<lambda>r. (r, height r)) (items (Iterator (map ?xz vrange)))),
             after wd (inline getHeight py_int (Iterator (map ?xz vrange)) en))"
    by (rule inline_total [where reply = reply])
       (simp_all add: items_def getHeight_no_newline free parse healthy all causal)
  moreover have "map (\<lambda>(pos, data). Vector (fst pos) data (snd pos))
                   (map (\<lambda>r. (r, height r)) (map ?xz vrange))
                 = map (\<lambda>v. case v of Vector x y z \<Rightarrow> Vector x (height (x, z)) z) vrange"
    by (simp add: o_def split: vector.splits)
  ultimately show ?thesis
    by (simp add: alt_picraft_getheight_vrange_def query_blocks_def items_def)
qed

lemma height_free:
  "\<forall>v \<in> set scenario_requests.
     newline \<notin> set (height_reply (case v of Vector x y z \<Rightarrow> (x, z)))"
  by (simp add: height_reply_def percent_d_no_newline)

lemma height_parse:
  "\<forall>v \<in> set scenario_requests.
     py_int (height_reply (case v of Vector x y z \<Rightarrow> (x, z)))
       = Some (64 + fst (case v of Vector x y z \<Rightarrow> (x, z)))"
  by (simp add: height_reply_def scenario_defs)

lemma height_healthy: "list_all healthy (conn_events height_env)"
  by (simp add: height_env_def healthy_def)

lemma height_delivered:
  "delivered (conn_events height_env)
     = replies height_reply (map (\<lambda>v. case v of Vector x y z \<Rightarrow> (x, z)) scenario_requests)"
  by (simp add: height_env_def height_reply_def scenario_defs delivered_def delivery_def
        replies_def)

lemma height_causal:
  "causal getHeight py_int (conn_events height_env)
     (map (\<lambda>v. case v of Vector x y z \<Rightarrow> (x, z)) scenario_requests)"
  by (simp add: causal_def height_env_def scenario_defs run_defs state_of_def in_step_def)

text \<open>
  C8, as stated, fails for the height adapter: in the scenario it returns the heights in
  the order of the range, and it has iterated the range once, not twice.
\<close>

theorem getheight_iterates_the_range_once:
  "fst (alt_picraft_getheight_vrange height_env scenario_requests untouched)
     = Gives [Vector 0 64 0, Vector 1 65 0, Vector 2 66 0] \<and>
   fst (snd (alt_picraft_getheight_vrange height_env scenario_requests untouched)) \<noteq> 2"
  using getheight_total [OF height_free height_parse height_healthy height_delivered
      height_causal, of untouched]
  by (simp add: scenario_requests_def)

text \<open>
  C8, amended. When the server answers every request (as in C3), both adapters return
  their results in the order of the range. The block adapter iterates the range twice:
  once as the requests of the batch, once to look every position up in the dictionary of
  the answers. The height adapter iterates the range once, in the generator expression
  that is its \<^verbatim>\<open>requests\<close> argument, and takes the pairs in the order in which the
  batch with \<^verbatim>\<open>thread_count = 0\<close> yields them.
\<close>

theorem adapters_keep_the_order_of_the_range:
  assumes "\<forall>v \<in> set vrange. newline \<notin> set (reply v)"
      and "\<forall>v \<in> set vrange. int_tuple (reply v) = Some (data v)"
      and "list_all healthy (conn_events en)"
      and "delivered (conn_events en) = replies reply vrange"
      and "causal getBlockWithData int_tuple (conn_events en) vrange"
      and "\<forall>v \<in> set vrange. newline \<notin> set (reply' (case v of Vector x y z \<Rightarrow> (x, z)))"
      and "\<forall>v \<in> set vrange.
             py_int (reply' (case v of Vector x y z \<Rightarrow> (x, z)))
               = Some (height (case v of Vector x y z \<Rightarrow> (x, z)))"
      and "list_all healthy (conn_events en')"
      and "delivered (conn_events en')
             = replies reply' (map (\<lambda>v. case v of Vector x y z \<Rightarrow> (x, z)) vrange)"
      and "causal getHeight py_int (conn_events en')
             (map (\<lambda>v. case v of Vector x y z \<Rightarrow> (x, z)) vrange)"
  shows "fst (alt_picraft_getblock_vrange en vrange wd)
           = Gives (map (\<lambda>v. Block (data v)) vrange) \<and>
         fst (snd (alt_picraft_getblock_vrange en vrange wd)) = 2 \<and>
         fst (alt_picraft_getheight_vrange en' vrange wd')
           = Gives (map (\<lambda>v. case v of Vector x y z \<Rightarrow> Vector x (height (x, z)) z) vrange) \<and>
         fst (snd (alt_picraft_getheight_vrange en' vrange wd')) = 1"
  using getblock_total [OF assms(1-5), of wd] getheight_total [OF assms(6-10), of wd']
  by simp

theorem adapters_keep_the_order_of_the_range_witness:
  "fst (alt_picraft_getblock_vrange scenario_env scenario_requests untouched)
     = Gives [Block [1, 0], Block [2, 0], Block [3, 0]] \<and>
   fst (snd (alt_picraft_getblock_vrange scenario_env scenario_requests untouched)) = 2 \<and>
   fst (alt_picraft_getheight_vrange height_env scenario_requests untouched)
     = Gives [Vector 0 64 0, Vector 1 65 0, Vector 2 66 0] \<and>
   fst (snd (alt_picraft_getheight_vrange height_env scenario_requests untouched)) = 1"
proof -
  have env: "conn_events scenario_env = scenario_events"
    by (simp add: scenario_env_def)
  have healthy: "list_all healthy (conn_events scenario_env)"
    unfolding env by (rule scenario_healthy)
  have delivered: "delivered (conn_events scenario_env) = replies scenario_reply scenario_requests"
    unfolding env by (rule scenario_delivered)
  have causal: "causal getBlockWithData int_tuple (conn_events scenario_env) scenario_requests"
    unfolding env by (rule scenario_causal)
  show ?thesis
    using adapters_keep_the_order_of_the_range
      [OF scenario_free scenario_parse healthy delivered causal height_free height_parse
          height_healthy height_delivered height_causal, of untouched untouched]
    by (simp add: scenario_requests_def scenario_answer_def)
qed

section \<open>The steps of a thread against the passes of the loop\<close>

lemma thread_steps_0 [simp]: "thread_steps fmt parse 0 c = c"
  by (simp add: thread_steps_def)

lemma thread_steps_Suc:
  "thread_steps fmt parse (Suc n) (p, es, w) = thread_steps fmt parse n (advance fmt parse p es w)"
  by (simp add: thread_steps_def funpow_swap1)

lemma thread_steps_add:
  "thread_steps fmt parse (m + n) c = thread_steps fmt parse n (thread_steps fmt parse m c)"
  unfolding thread_steps_def by (subst add.commute) (simp add: funpow_add)

lemma thread_steps_Exited [simp]: "thread_steps fmt parse n (Exited, es, w) = (Exited, es, w)"
  by (induction n) (simp_all add: thread_steps_Suc)

lemma thread_steps_Died [simp]: "thread_steps fmt parse n (Died err, es, w) = (Died err, es, w)"
  by (induction n) (simp_all add: thread_steps_Suc)

text \<open>The inner loop, step by step, is \<open>grab\<close>.\<close>

lemma inner_steps:
  "\<exists>n. thread_steps fmt parse n (Inner, es, w) = (Ready, es, grab fmt w)"
proof (induction fmt w rule: grab.induct)
  case (1 fmt w)
  show ?case
  proof (cases "more_requests w \<and> length (request_buffer w) < 4096")
    case True
    with "1.IH" obtain n where
      "thread_steps fmt parse n (Inner, es, draw fmt w) = (Ready, es, grab fmt (draw fmt w))"
      by blast
    moreover have "grab fmt w = grab fmt (draw fmt w)"
      using True by (subst grab.simps) simp
    ultimately have "thread_steps fmt parse (Suc n) (Inner, es, w) = (Ready, es, grab fmt w)"
      using True by (simp add: thread_steps_Suc)
    then show ?thesis by blast
  next
    case False
    then have "grab fmt w = w"
      by (subst grab.simps) auto
    with False have "thread_steps fmt parse (Suc 0) (Inner, es, w) = (Ready, es, grab fmt w)"
      by (auto simp: thread_steps_Suc)
    then show ?thesis by blast
  qed
qed

text \<open>The for loop, step by step, is \<open>emit\<close>.\<close>

lemma matching_steps_Inr:
  "emit parse ls w = Inr w' \<Longrightarrow>
     thread_steps fmt parse (Suc (length ls)) (Matching ls, es, w) = (Head, es, w')"
proof (induction ls arbitrary: w)
  case Nil
  then show ?case by (simp add: thread_steps_Suc)
next
  case (Cons l ls)
  then obtain w1 where m: "match_one parse l w = Inr w1" and rest: "emit parse ls w1 = Inr w'"
    by (auto split: sum.splits)
  from Cons.IH [OF rest] m show ?case
    by (simp add: thread_steps_Suc)
qed

lemma matching_steps_Inl:
  "emit parse ls w = Inl (err, w') \<Longrightarrow>
     \<exists>n. thread_steps fmt parse n (Matching ls, es, w) = (Died err, es, w')"
proof (induction ls arbitrary: w)
  case Nil
  then show ?case by simp
next
  case (Cons l ls)
  show ?case
  proof (cases "match_one parse l w")
    case (Inl raised)
    with Cons.prems have "raised = (err, w')" by simp
    with Inl have "thread_steps fmt parse (Suc 0) (Matching (l # ls), es, w) = (Died err, es, w')"
      by (simp add: thread_steps_Suc)
    then show ?thesis by blast
  next
    case (Inr w1)
    with Cons.prems have "emit parse ls w1 = Inl (err, w')" by simp
    from Cons.IH [OF this] obtain n where
      "thread_steps fmt parse n (Matching ls, es, w1) = (Died err, es, w')"
      by blast
    with Inr have "thread_steps fmt parse (Suc n) (Matching (l # ls), es, w) = (Died err, es, w')"
      by (simp add: thread_steps_Suc)
    then show ?thesis by blast
  qed
qed

text \<open>
  A thread that runs on its own from the test of the loop ends as \<open>worker_loop\<close> says:
  returned with the state of the return, or ended by the exception with the state at
  the raise.
\<close>

lemma thread_follows_worker_loop:
  "(worker_loop fmt parse es w = Returns w' \<longrightarrow>
      (\<exists>n es'. thread_steps fmt parse n (Head, es, w) = (Exited, es', w'))) \<and>
   (worker_loop fmt parse es w = Raises err w' \<longrightarrow>
      (\<exists>n es'. thread_steps fmt parse n (Head, es, w) = (Died err, es', w')))"
proof (induction es arbitrary: w)
  case Nil
  show ?case
  proof (cases "more_requests w \<or> pending_request_queue w \<noteq> []")
    case False
    then have "thread_steps fmt parse (Suc 0) (Head, [], w) = (Exited, [], w)"
      by (simp add: thread_steps_Suc)
    with False show ?thesis
      by (auto simp: worker_loop_idle)
  next
    case True
    note busy = this
    obtain n where inner: "thread_steps fmt parse n (Inner, [], w) = (Ready, [], grab fmt w)"
      using inner_steps by blast
    have head: "thread_steps fmt parse (Suc n) (Head, [], w) = (Ready, [], grab fmt w)"
      using busy inner by (auto simp: thread_steps_Suc)
    show ?thesis
    proof (cases "more_requests (grab fmt w) \<or> pending_request_queue (grab fmt w) \<noteq> []")
      case True
      with busy show ?thesis by (simp add: worker_loop_out_of_events)
    next
      case False
      have "thread_steps fmt parse (Suc n + 2) (Head, [], w)
              = thread_steps fmt parse 2 (Ready, [], grab fmt w)"
        using head by (simp only: thread_steps_add)
      also have "\<dots> = (Exited, [], grab fmt w)"
        using False by (simp add: numeral_2_eq_2 thread_steps_Suc)
      finally show ?thesis
        using busy False by (auto simp: worker_loop_drained)
    qed
  qed
next
  case (Cons e es)
  show ?case
  proof (cases "more_requests w \<or> pending_request_queue w \<noteq> []")
    case False
    then have "thread_steps fmt parse (Suc 0) (Head, e # es, w) = (Exited, e # es, w)"
      by (simp add: thread_steps_Suc)
    with False show ?thesis
      by (auto simp: worker_loop_idle)
  next
    case True
    note busy = this
    obtain n where inner:
      "thread_steps fmt parse n (Inner, e # es, w) = (Ready, e # es, grab fmt w)"
      using inner_steps by blast
    have head: "thread_steps fmt parse (Suc n) (Head, e # es, w) = (Ready, e # es, grab fmt w)"
      using busy inner by (auto simp: thread_steps_Suc)
    show ?thesis
    proof (cases "more_requests (grab fmt w) \<or> pending_request_queue (grab fmt w) \<noteq> []")
      case False
      have "thread_steps fmt parse (Suc n + 2) (Head, e # es, w)
              = thread_steps fmt parse 2 (Ready, e # es, grab fmt w)"
        using head by (simp only: thread_steps_add)
      also have "\<dots> = (Exited, e # es, grab fmt w)"
        using False by (simp add: numeral_2_eq_2 thread_steps_Suc)
      finally show ?thesis
        using busy False by (auto simp: worker_loop_drained)
    next
      case True
      note busy' = this
      have loop: "worker_loop fmt parse (e # es) w =
          (case iteration parse e (grab fmt w) of
             Inl (err, w2) \<Rightarrow> Raises err w2
           | Inr w2 \<Rightarrow> worker_loop fmt parse es w2)"
        using busy busy' by (rule worker_loop_pass)
      show ?thesis
      proof (cases "io e (grab fmt w)")
        case (Inl raised)
        obtain err1 w1 where raised: "raised = (err1, w1)" by (cases raised)
        have "thread_steps fmt parse (Suc n + 1) (Head, e # es, w)
                = thread_steps fmt parse 1 (Ready, e # es, grab fmt w)"
          using head by (simp only: thread_steps_add)
        also have "\<dots> = (Died err1, es, w1)"
          using busy' Inl raised by (auto simp: thread_steps_Suc)
        finally have "\<exists>n es'. thread_steps fmt parse n (Head, e # es, w) = (Died err1, es', w1)"
          by blast
        moreover have "worker_loop fmt parse (e # es) w = Raises err1 w1"
          using loop Inl raised by (simp add: iteration_def)
        ultimately show ?thesis by auto
      next
        case (Inr w1)
        let ?ls = "fst (take_lines w1)" and ?w1 = "snd (take_lines w1)"
        have "thread_steps fmt parse (Suc n + 1) (Head, e # es, w)
                = thread_steps fmt parse 1 (Ready, e # es, grab fmt w)"
          using head by (simp only: thread_steps_add)
        also have "\<dots> = (Matching ?ls, es, ?w1)"
          using busy' Inr by (auto simp: thread_steps_Suc split: prod.splits)
        finally have ready:
          "thread_steps fmt parse (Suc n + 1) (Head, e # es, w) = (Matching ?ls, es, ?w1)" .
        have it: "iteration parse e (grab fmt w) = emit parse ?ls ?w1"
          using Inr by (simp add: iteration_def parse_responses_def split: prod.splits)
        show ?thesis
        proof (cases "emit parse ?ls ?w1")
          case (Inl raised)
          obtain err2 w2 where raised: "raised = (err2, w2)" by (cases raised)
          from matching_steps_Inl [of parse ?ls ?w1 err2 w2 fmt es] Inl raised obtain k where
            "thread_steps fmt parse k (Matching ?ls, es, ?w1) = (Died err2, es, w2)"
            by auto
          with ready have "thread_steps fmt parse (Suc n + 1 + k) (Head, e # es, w)
                             = (Died err2, es, w2)"
            by (simp only: thread_steps_add)
          then have "\<exists>n es'. thread_steps fmt parse n (Head, e # es, w) = (Died err2, es', w2)"
            by blast
          moreover have "worker_loop fmt parse (e # es) w = Raises err2 w2"
            using loop it Inl raised by simp
          ultimately show ?thesis by auto
        next
          case (Inr w2)
          from matching_steps_Inr [OF Inr, of fmt es]
          have "thread_steps fmt parse (Suc n + 1 + Suc (length ?ls)) (Head, e # es, w)
                  = (Head, es, w2)"
            using ready by (simp only: thread_steps_add)
          then have onward: "thread_steps fmt parse (Suc n + 1 + Suc (length ?ls) + k) (Head, e # es, w)
                  = thread_steps fmt parse k (Head, es, w2)" for k
            by (simp only: thread_steps_add)
          have next_pass: "worker_loop fmt parse (e # es) w = worker_loop fmt parse es w2"
            using loop it Inr by simp
          show ?thesis
            unfolding next_pass using Cons.IH [of w2] onward by metis
        qed
      qed
    qed
  qed
qed

lemma run_thread_single:
  assumes "single s"
  shows "single (run_thread fmt parse 0 s) \<and>
         single_view (run_thread fmt parse 0 s)
           = (\<lambda>(p, es, w). advance fmt parse p es w) (single_view s)"
proof -
  from assms obtain t it where s: "threads s = [t]" "iterators s = [it]" "iter_ref t = 0"
    by (cases "threads s"; cases "iterators s") (auto simp: single_def)
  obtain p es w where a:
    "advance fmt parse (place_of t) (socket_events t)
       ((frame t)\<lparr>request_iter := it, answer_queue := queue s\<rparr>) = (p, es, w)"
    by (metis prod_cases3)
  have "run_thread fmt parse 0 s
          = s\<lparr>iterators := [request_iter w], queue := answer_queue w,
              threads := [t\<lparr>place_of := p, socket_events := es, frame := w\<rparr>]\<rparr>"
    using s a by (simp add: run_thread_def Let_def)
  then show ?thesis
    using s a by (simp add: single_def single_view_def)
qed

lemma run_schedule_single:
  "single s \<Longrightarrow>
     single (run_schedule fmt parse (replicate n 0) s) \<and>
     single_view (run_schedule fmt parse (replicate n 0) s)
       = thread_steps fmt parse n (single_view s)"
proof (induction n arbitrary: s)
  case 0
  then show ?case by (simp add: run_schedule_def)
next
  case (Suc n)
  from run_thread_single [OF Suc.prems, of fmt parse] have
    one: "single (run_thread fmt parse 0 s)" and
    view: "single_view (run_thread fmt parse 0 s)
             = (\<lambda>(p, es, w). advance fmt parse p es w) (single_view s)"
    by simp_all
  have "run_schedule fmt parse (replicate (Suc n) 0) s
          = run_schedule fmt parse (replicate n 0) (run_thread fmt parse 0 s)"
    by (simp add: run_schedule_def)
  moreover have "thread_steps fmt parse (Suc n) (single_view s)
                   = thread_steps fmt parse n (single_view (run_thread fmt parse 0 s))"
    unfolding view by (cases "single_view s") (simp add: thread_steps_Suc)
  ultimately show ?case
    using Suc.IH [OF one] by simp
qed

lemma spawn_single:
  "single (spawn requests [sk] :: ('r, 'a) system) \<and>
   single_view (spawn requests [sk] :: ('r, 'a) system)
     = (Head, traffic (peer_of sk), start (items requests) [])"
  by (cases requests) (simp_all add: spawn_def single_def single_view_def start_def items_def)

text \<open>
  One thread, whose connect succeeds: whether the worker on these events returns or
  raises, a long enough schedule makes the body give the answer queue that the worker
  has left. An exception of the worker does not make the body fail.
\<close>

lemma one_thread_gives_the_queue:
  assumes conn: "connects (peers en 0)"
      and out: "worker_fn fmt parse (traffic (peers en 0)) (items requests) [] = Returns w \<or>
                worker_fn fmt parse (traffic (peers en 0)) (items requests) [] = Raises err w"
  shows "\<exists>n. result (threaded fmt parse 1 requests (en\<lparr>schedule := replicate n 0\<rparr>))
               = Gives (answer_queue w)"
proof -
  let ?sk = "\<lparr>peer_of = peers en 0, connected = True, shut_down = False, closed = False\<rparr>"
  let ?init = "spawn requests [?sk] :: ('a, 'b) system"
  have socks: "connect_all (peers en) [0..<1] [] = (True, [?sk])"
    using conn by simp
  from out thread_follows_worker_loop
    [of fmt parse "traffic (peers en 0)" "start (items requests) []" w err]
  obtain n es' p where
    steps: "thread_steps fmt parse n (Head, traffic (peers en 0), start (items requests) [])
              = (p, es', w)" and
    p: "p = Exited \<or> p = Died err"
    unfolding worker_fn_def by blast
  let ?fin = "run_schedule fmt parse (replicate n 0) ?init"
  have sp1: "single ?init"
    by (rule conjunct1 [OF spawn_single])
  have "single_view ?init = (Head, traffic (peer_of ?sk), start (items requests) [])"
    by (rule conjunct2 [OF spawn_single])
  then have sp2: "single_view ?init = (Head, traffic (peers en 0), start (items requests) [])"
    by simp
  have both: "single ?fin \<and> single_view ?fin = thread_steps fmt parse n (single_view ?init)"
    using sp1 by (rule run_schedule_single)
  have one: "single ?fin"
    using both by simp
  have view: "single_view ?fin = (p, es', w)"
    using both unfolding sp2 steps by simp
  from one obtain t where t: "threads ?fin = [t]"
    by (cases "threads ?fin") (auto simp: single_def)
  from view t have pl: "place_of t = p" and
    fr: "(frame t)\<lparr>request_iter := hd (iterators ?fin), answer_queue := queue ?fin\<rparr> = w"
    by (simp_all add: single_view_def)
  from arg_cong [OF fr, of answer_queue] have q: "queue ?fin = answer_queue w"
    by simp
  from pl p t have "list_all ended (threads ?fin)"
    by (auto simp: ended_def)
  with q have "list_all ended (threads ?fin)" "queue ?fin = answer_queue w"
    by simp_all
  then have "result (threaded fmt parse 1 requests (en\<lparr>schedule := replicate n 0\<rparr>))
               = Gives (answer_queue w)"
    unfolding threaded_def using socks by (simp add: Let_def)
  then show ?thesis by blast
qed

lemma threaded_never_fails_after_connect:
  "fst (connect_all (peers en) [0..<thread_count] []) \<Longrightarrow>
     result (threaded fmt parse thread_count requests en) \<noteq> Fails err"
  by (cases "connect_all (peers en) [0..<thread_count] []")
     (simp add: threaded_def Let_def)

section \<open>Replies that arrive in any number of reads\<close>

lemma complete_lines_append:
  "complete_lines (xs @ ys) = complete_lines xs @ complete_lines (retained xs @ ys)"
  by (simp add: complete_lines_def retained_def butlast_py_split_append [of newline xs ys])

lemma retained_append: "retained (xs @ ys) = retained (retained xs @ ys)"
  by (simp add: retained_def last_py_split_append [of newline xs ys])

lemma retained_no_newline: "newline \<notin> set (retained xs)"
  unfolding retained_def
  using py_split_segments [of "last (py_split newline xs)" newline xs] by simp

lemma no_newline_lines:
  "newline \<notin> set xs \<Longrightarrow> complete_lines xs = [] \<and> retained xs = xs"
  by (simp add: complete_lines_def retained_def py_split_plain)

text \<open>One pass, for an event whose transfers do not fail.\<close>

lemma iteration_total:
  assumes healthy: "healthy e"
      and enough: "length (complete_lines (response_buffer w @ delivery e))
                     \<le> length (pending_request_queue w)"
      and parses: "\<forall>l \<in> set (complete_lines (response_buffer w @ delivery e)).
                     parse l = Some (answer l)"
  shows "\<exists>w'. iteration parse e w = Inr w' \<and>
           answer_queue w' = answer_queue w
             @ zip (pending_request_queue w)
                   (map answer (complete_lines (response_buffer w @ delivery e))) \<and>
           pending_request_queue w'
             = drop (length (complete_lines (response_buffer w @ delivery e)))
                 (pending_request_queue w) \<and>
           response_buffer w' = retained (response_buffer w @ delivery e) \<and>
           more_requests w' = more_requests w"
proof -
  let ?ls = "complete_lines (response_buffer w @ delivery e)"
  from healthy obtain w1 where io: "io e w = Inr w1"
    using io_healthy by blast
  from io_Inr [OF io] obtain k where
    w1: "w1 = w\<lparr>request_buffer := drop k (request_buffer w),
                 wire_out := wire_out w @ take k (request_buffer w),
                 response_buffer := response_buffer w @ delivery e,
                 wire_in := wire_in w @ delivery e\<rparr>"
    by blast
  have ok: "\<forall>l \<in> set ?ls. parse l \<noteq> None"
    using parses by simp
  have "\<exists>w2. emit parse ?ls
          (w1\<lparr>response_buffer := retained (response_buffer w @ delivery e)\<rparr>) = Inr w2"
    using enough ok by (intro emit_ok) (simp_all add: w1)
  then obtain w2 where it: "iteration parse e w = Inr w2"
    using io
    by (auto simp: iteration_def parse_responses_def take_lines_def Let_def w1
          complete_lines_def retained_def)
  from iteration_Inr [OF it] obtain k' where
    len: "length ?ls \<le> length (pending_request_queue w)" and
    w2: "w2 = w\<lparr>request_buffer := drop k' (request_buffer w),
                 wire_out := wire_out w @ take k' (request_buffer w),
                 response_buffer := retained (response_buffer w @ delivery e),
                 wire_in := wire_in w @ delivery e,
                 pending_request_queue := drop (length ?ls) (pending_request_queue w),
                 answer_queue := answer_queue w
                    @ zip (take (length ?ls) (pending_request_queue w))
                          (map (\<lambda>l. the (parse l)) ?ls)\<rparr>"
    unfolding complete_lines_def retained_def by blast
  have eq1: "map (\<lambda>l. the (parse l)) ?ls = map answer ?ls"
    using parses by (intro map_cong) simp_all
  have eq2: "zip (take (length ?ls) (pending_request_queue w)) (map answer ?ls)
               = zip (pending_request_queue w) (map answer ?ls)"
    using zip_append2 [of "pending_request_queue w" "map answer ?ls" "[]"] by simp
  have "answer_queue w2
      = answer_queue w @ zip (pending_request_queue w) (map answer ?ls)"
    unfolding w2 eq1 by (simp add: eq2)
  with it show ?thesis
    by (intro exI [of _ w2]) (simp add: w2)
qed

lemma passes_total:
  "list_all healthy es \<Longrightarrow>
   newline \<notin> set (response_buffer w) \<Longrightarrow>
   length (complete_lines (response_buffer w @ delivered es))
     \<le> length (pending_request_queue w) \<Longrightarrow>
   \<forall>l \<in> set (complete_lines (response_buffer w @ delivered es)). parse l = Some (answer l) \<Longrightarrow>
   \<exists>w'. passes parse es w = Inr w' \<and>
        answer_queue w' = answer_queue w
          @ zip (pending_request_queue w)
                (map answer (complete_lines (response_buffer w @ delivered es))) \<and>
        pending_request_queue w'
          = drop (length (complete_lines (response_buffer w @ delivered es)))
              (pending_request_queue w) \<and>
        response_buffer w' = retained (response_buffer w @ delivered es) \<and>
        (\<not> more_requests w \<and>
         length (complete_lines (response_buffer w @ delivered es))
           < length (pending_request_queue w) \<longrightarrow>
           worker_loop fmt parse es w = Waits w')"
proof (induction es arbitrary: w)
  case Nil
  have plain: "complete_lines (response_buffer w) = []" "retained (response_buffer w) = response_buffer w"
    using no_newline_lines [OF Nil.prems(2)] by simp_all
  have "\<not> more_requests w \<and> 0 < length (pending_request_queue w) \<longrightarrow>
          worker_loop fmt parse [] w = Waits w"
    using worker_loop_out_of_events [of w fmt parse] by (auto simp: grab_stopped)
  then show ?case
    by (intro exI [of _ w]) (simp add: delivered_def plain)
next
  case (Cons e es)
  let ?rb = "response_buffer w" and ?p = "pending_request_queue w"
  let ?d = "delivery e" and ?rest = "delivered es"
  let ?L1 = "complete_lines (?rb @ ?d)" and ?r1 = "retained (?rb @ ?d)"
  let ?L2 = "complete_lines (?r1 @ ?rest)"
  have stream: "?rb @ delivered (e # es) = (?rb @ ?d) @ ?rest"
    by (simp add: delivered_def)
  have lines: "complete_lines (?rb @ delivered (e # es)) = ?L1 @ ?L2"
    unfolding stream by (rule complete_lines_append)
  have rest: "retained (?rb @ delivered (e # es)) = retained (?r1 @ ?rest)"
    unfolding stream by (rule retained_append)
  have enough: "length ?L1 + length ?L2 \<le> length ?p"
    using Cons.prems(3) by (simp add: lines)
  have parses: "\<forall>l \<in> set ?L1. parse l = Some (answer l)" "\<forall>l \<in> set ?L2. parse l = Some (answer l)"
    using Cons.prems(4) by (simp_all add: lines)
  have "healthy e" using Cons.prems(1) by simp
  from iteration_total [OF this _ parses(1)] enough obtain w2 where
    it: "iteration parse e w = Inr w2" and
    aq2: "answer_queue w2 = answer_queue w @ zip ?p (map answer ?L1)" and
    p2: "pending_request_queue w2 = drop (length ?L1) ?p" and
    rb2: "response_buffer w2 = ?r1" and
    more2: "more_requests w2 = more_requests w"
    by auto
  have "\<exists>w'. passes parse es w2 = Inr w' \<and>
        answer_queue w' = answer_queue w2
          @ zip (pending_request_queue w2)
                (map answer (complete_lines (response_buffer w2 @ delivered es))) \<and>
        pending_request_queue w'
          = drop (length (complete_lines (response_buffer w2 @ delivered es)))
              (pending_request_queue w2) \<and>
        response_buffer w' = retained (response_buffer w2 @ delivered es) \<and>
        (\<not> more_requests w2 \<and>
         length (complete_lines (response_buffer w2 @ delivered es))
           < length (pending_request_queue w2) \<longrightarrow>
           worker_loop fmt parse es w2 = Waits w')"
  proof (rule Cons.IH)
    show "list_all healthy es" using Cons.prems(1) by simp
    show "newline \<notin> set (response_buffer w2)"
      unfolding rb2 by (rule retained_no_newline)
    show "length (complete_lines (response_buffer w2 @ delivered es))
            \<le> length (pending_request_queue w2)"
      using enough by (simp add: rb2 p2)
    show "\<forall>l \<in> set (complete_lines (response_buffer w2 @ delivered es)). parse l = Some (answer l)"
      using parses(2) by (simp add: rb2)
  qed
  then obtain w' where
    run: "passes parse es w2 = Inr w'" and
    aq: "answer_queue w' = answer_queue w2 @ zip (drop (length ?L1) ?p) (map answer ?L2)" and
    p: "pending_request_queue w' = drop (length ?L2) (drop (length ?L1) ?p)" and
    rb: "response_buffer w' = retained (?r1 @ ?rest)" and
    loop: "\<not> more_requests w \<and> length ?L2 < length (drop (length ?L1) ?p) \<longrightarrow>
             worker_loop fmt parse es w2 = Waits w'"
    unfolding rb2 p2 more2 by blast
  have c1: "passes parse (e # es) w = Inr w'"
    using it run by simp
  have "zip ?p (map answer (?L1 @ ?L2))
          = zip (take (length ?L1) ?p) (map answer ?L1) @ zip (drop (length ?L1) ?p) (map answer ?L2)"
    using zip_append2 [of ?p "map answer ?L1" "map answer ?L2"] by simp
  also have "zip (take (length ?L1) ?p) (map answer ?L1) = zip ?p (map answer ?L1)"
    using zip_append2 [of ?p "map answer ?L1" "[]"] by simp
  finally have c2: "answer_queue w'
      = answer_queue w @ zip ?p (map answer (complete_lines (?rb @ delivered (e # es))))"
    by (simp add: aq aq2 lines)
  have c3: "pending_request_queue w'
      = drop (length (complete_lines (?rb @ delivered (e # es)))) ?p"
    by (simp add: p lines add.commute)
  have c4: "response_buffer w' = retained (?rb @ delivered (e # es))"
    by (simp add: rb rest)
  have c5: "\<not> more_requests w \<and>
        length (complete_lines (?rb @ delivered (e # es))) < length ?p \<longrightarrow>
        worker_loop fmt parse (e # es) w = Waits w'"
  proof
    assume a: "\<not> more_requests w \<and>
        length (complete_lines (?rb @ delivered (e # es))) < length ?p"
    then have busy: "more_requests w \<or> ?p \<noteq> []" by auto
    have g: "grab fmt w = w" using a by (simp add: grab_stopped)
    have "worker_loop fmt parse (e # es) w = worker_loop fmt parse es w2"
      using worker_loop_pass [of w fmt parse e es] busy it by (simp add: g)
    moreover have "length ?L2 < length (drop (length ?L1) ?p)"
      using a unfolding lines by simp arith
    then have "worker_loop fmt parse es w2 = Waits w'"
      using a loop by blast
    ultimately show "worker_loop fmt parse (e # es) w = Waits w'" by simp
  qed
  show ?case
    using c1 c2 c3 c4 c5 by blast
qed

text \<open>
  C5. Any number of passes of the loop on events whose transfers do not fail, for a
  response buffer that holds no complete line at the start; the reads may cut the bytes
  anywhere, and a pass may also write. When a request is pending for every complete line
  of the response buffer followed by all that the reads return, and these lines parse,
  then no pass raises, every one of these lines is matched, in order and once, with the
  oldest pending requests, exactly these requests have left the pending queue, and what
  follows the last terminator is the response buffer for the next read. So the result
  is that of one read of the whole: a reply cut in two by the reads gives the one answer
  of its line. For a worker that has drawn all its requests and still has one pending,
  these passes are what \<open>worker_loop\<close> does.
\<close>

theorem complete_lines_are_matched_across_reads:
  assumes "list_all healthy es"
      and "newline \<notin> set (response_buffer w)"
      and "length (complete_lines (response_buffer w @ delivered es))
             \<le> length (pending_request_queue w)"
      and "\<forall>l \<in> set (complete_lines (response_buffer w @ delivered es)). parse l = Some (answer l)"
  shows "\<exists>w'. passes parse es w = Inr w' \<and>
           answer_queue w' = answer_queue w
             @ zip (pending_request_queue w)
                   (map answer (complete_lines (response_buffer w @ delivered es))) \<and>
           pending_request_queue w'
             = drop (length (complete_lines (response_buffer w @ delivered es)))
                 (pending_request_queue w) \<and>
           response_buffer w' = retained (response_buffer w @ delivered es) \<and>
           (\<not> more_requests w \<and>
            length (complete_lines (response_buffer w @ delivered es))
              < length (pending_request_queue w) \<longrightarrow>
              worker_loop fmt parse es w = Waits w')"
  using assms by (rule passes_total)

text \<open>
  Four height queries are pending; the first read returns \<^verbatim>\<open>"1\n2\n4"\<close>, the second
  \<^verbatim>\<open>"2\n"\<close>: the answers are 1, 2 and 42, and the fourth query stays pending.
\<close>

theorem complete_lines_are_matched_across_reads_witness:
  "\<exists>w'. passes py_int
          [\<lparr>readable = True, writable = False, on_send = Accepts 1,
            on_recv = Delivers [CHR ''1'', newline, CHR ''2'', newline, CHR ''4'']\<rparr>,
           \<lparr>readable = True, writable = False, on_send = Accepts 1,
            on_recv = Delivers [CHR ''2'', newline]\<rparr>]
          ((start [] [])\<lparr>more_requests := False,
               pending_request_queue := [(0, 0), (1, 0), (2, 0), (3, 0)]\<rparr>) = Inr w' \<and>
        answer_queue w' = [((0, 0), 1), ((1, 0), 2), ((2, 0), 42)] \<and>
        pending_request_queue w' = [(3, 0)] \<and>
        response_buffer w' = [] \<and>
        worker_loop getHeight py_int
          [\<lparr>readable = True, writable = False, on_send = Accepts 1,
            on_recv = Delivers [CHR ''1'', newline, CHR ''2'', newline, CHR ''4'']\<rparr>,
           \<lparr>readable = True, writable = False, on_send = Accepts 1,
            on_recv = Delivers [CHR ''2'', newline]\<rparr>]
          ((start [] [])\<lparr>more_requests := False,
               pending_request_queue := [(0, 0), (1, 0), (2, 0), (3, 0)]\<rparr>) = Waits w'"
proof -
  let ?es = "[\<lparr>readable = True, writable = False, on_send = Accepts 1,
                on_recv = Delivers [CHR ''1'', newline, CHR ''2'', newline, CHR ''4'']\<rparr>,
              \<lparr>readable = True, writable = False, on_send = Accepts 1,
                on_recv = Delivers [CHR ''2'', newline]\<rparr>]"
  let ?w = "(start [] [])\<lparr>more_requests := False,
               pending_request_queue := [(0, 0), (1, 0), (2, 0), (3, 0)]\<rparr> :: (int \<times> int, int) worker"
  have lines: "complete_lines (response_buffer ?w @ delivered ?es) = [''1'', ''2'', ''42'']"
    by (simp add: complete_lines_def delivered_def delivery_def start_def)
  have rest: "retained (response_buffer ?w @ delivered ?es) = []"
    by (simp add: retained_def delivered_def delivery_def start_def)
  have h1: "list_all healthy ?es"
    by (simp add: healthy_def)
  have h2: "newline \<notin> set (response_buffer ?w)"
    by (simp add: start_def)
  have h3: "length (complete_lines (response_buffer ?w @ delivered ?es))
              \<le> length (pending_request_queue ?w)"
    unfolding lines by simp
  have h4: "\<forall>l \<in> set (complete_lines (response_buffer ?w @ delivered ?es)).
              py_int l = Some (the (py_int l))"
    unfolding lines by (simp add: py_int_def digit_value_def)
  from complete_lines_are_matched_across_reads [OF h1 h2 h3 h4, of getHeight]
  obtain w' where
    "passes py_int ?es ?w = Inr w'"
    "answer_queue w' = answer_queue ?w
       @ zip (pending_request_queue ?w) (map (\<lambda>l. the (py_int l)) [''1'', ''2'', ''42''])"
    "pending_request_queue w' = drop (length [''1'', ''2'', ''42'']) (pending_request_queue ?w)"
    "response_buffer w' = []"
    "\<not> more_requests ?w \<and> length [''1'', ''2'', ''42''] < length (pending_request_queue ?w) \<longrightarrow>
       worker_loop getHeight py_int ?es ?w = Waits w'"
    unfolding lines rest by blast
  then show ?thesis
    by (intro exI [of _ w']) (simp add: start_def py_int_def digit_value_def)
qed

text \<open>
  One height query is pending; the first read returns \<^verbatim>\<open>"4"\<close>, the second \<^verbatim>\<open>"2\n"\<close>:
  the answer is 42.
\<close>

lemma forty_two_in_two_reads:
  "\<exists>w'. passes py_int
          [\<lparr>readable = True, writable = False, on_send = Accepts 1, on_recv = Delivers ''4''\<rparr>,
           \<lparr>readable = True, writable = False, on_send = Accepts 1,
            on_recv = Delivers [CHR ''2'', newline]\<rparr>]
          ((start [] [])\<lparr>pending_request_queue := [(0, 0)]\<rparr>) = Inr w' \<and>
        answer_queue w' = [((0, 0), 42)] \<and>
        pending_request_queue w' = [] \<and>
        response_buffer w' = []"
  by (simp add: iteration_def io_def do_recv_def parse_responses_def take_lines_def
        match_one_def Let_def start_def py_int_def digit_value_def)

end
